theory Spec2Isabelle
  imports Main "HOL-Library.Word" "HOL-Library.Multiset"
begin

section \<open>Phase 2 of the plotter: backpropagation and compaction (src/phase2.hpp)\<close>

text \<open>
  The development embeds \<^verbatim>\<open>RunPhase2\<close> of \<^verbatim>\<open>src/phase2.hpp\<close>. The function is the
  whole source unit; the headers it includes (\<^verbatim>\<open>disk.hpp\<close>, \<^verbatim>\<open>entry_sizes.hpp\<close>,
  \<^verbatim>\<open>sort_manager.hpp\<close>, \<^verbatim>\<open>bitfield_index.hpp\<close>, and the bit utilities) are absent.
  Their parts are either parameters of the model (\<^verbatim>\<open>GetMaxEntrySize\<close>, \<^verbatim>\<open>kOffsetSize\<close>,
  the sort manager) or definitions written from the specification, each marked
  \<open>Modelled from the spec\<close>.

  Sizes, counters and cursors are \<^typ>\<open>nat\<close>: the 64-bit counters of the source do not
  wrap on tables whose byte size is below \<open>2 ^ 63\<close>, the only tables a file can hold.
  The vectors \<^verbatim>\<open>table_sizes\<close> and \<^verbatim>\<open>tmp_1_disks\<close> are only ever indexed by a table
  index in \<open>1..7\<close>; they are functions of that index.
\<close>

subsection \<open>Bytes and bit strings\<close>

type_synonym byte = "8 word"

datatype error = OutOfBounds | ShortRead | AssertionFailed | DivisionByZero

text \<open>
  Modelled from the spec: the class \<^verbatim>\<open>Bits\<close> (absent header). A \<^verbatim>\<open>Bits\<close> is a bit string,
  most significant bit first; \<^verbatim>\<open>Bits(v, n)\<close> is \<open>v\<close> as an unsigned field of \<open>n\<close> bits,
  \<^verbatim>\<open>+=\<close> appends, \<^verbatim>\<open>GetSize\<close> is the length.
\<close>

definition Bits :: "nat \<Rightarrow> nat \<Rightarrow> bool list" where
  "Bits v n = map (\<lambda>i. bit v (n - Suc i)) [0..<n]"

definition bits_to_nat :: "bool list \<Rightarrow> nat" where
  "bits_to_nat bs = horner_sum of_bool 2 (rev bs)"

definition byte_of_bits :: "bool list \<Rightarrow> byte" where
  "byte_of_bits bs = horner_sum of_bool 2 (rev bs)"

definition bits_of_byte :: "byte \<Rightarrow> bool list" where
  "bits_of_byte b = map (\<lambda>i. bit b (7 - i)) [0..<8]"

definition bits_of_bytes :: "byte list \<Rightarrow> bool list" where
  "bits_of_bytes bytes = concat (map bits_of_byte bytes)"

text \<open>
  Modelled from the spec: \<^verbatim>\<open>Util::ByteAlign\<close> rounds a bit count up to a whole number of
  bytes, and \<^verbatim>\<open>Bits::ToBytes\<close> writes the bit string left-packed into
  \<open>\<lceil>size / 8\<rceil>\<close> bytes, the unused low bits of the last byte zero.
\<close>

definition ByteAlign :: "nat \<Rightarrow> nat" where
  "ByteAlign num_bits = num_bits + (8 - num_bits mod 8) mod 8"

definition ToBytes :: "bool list \<Rightarrow> byte list" where
  "ToBytes bs =
     map (\<lambda>j. byte_of_bits (take 8 (drop (8 * j) (bs @ replicate 7 False))))
       [0..<(length bs + 7) div 8]"

text \<open>
  Modelled from the spec: \<^verbatim>\<open>Util::SliceInt64FromBytes(bytes, start_bit, num_bits)\<close> reads
  the unsigned field of \<open>num_bits\<close> bits that starts \<open>start_bit\<close> bits into the bytes
  at the pointer (entries are bit-packed, most significant bit first).
\<close>

definition SliceInt64FromBytes :: "byte list \<Rightarrow> nat \<Rightarrow> nat \<Rightarrow> nat" where
  "SliceInt64FromBytes bytes start_bit num_bits =
     bits_to_nat (take num_bits (drop start_bit (bits_of_bytes bytes)))"

subsection \<open>The rank index over a liveness bitfield\<close>

text \<open>
  Modelled from the spec: \<^verbatim>\<open>bitfield_index\<close> (absent header). It is a read-only view of
  the bitfield it is built from; \<open>rank p\<close> is the number of \<open>true\<close> bits at indices
  below \<open>p\<close>, and \<open>lookup (pos, offset)\<close> returns \<open>new_pos = rank pos\<close> and
  \<open>new_offset = rank (pos + offset) - new_pos\<close>.
\<close>

definition rank :: "bool list \<Rightarrow> nat \<Rightarrow> nat" where
  "rank bitfield p = length (filter id (take p bitfield))"

definition lookup :: "bool list \<Rightarrow> nat \<Rightarrow> nat \<Rightarrow> nat \<times> nat" where
  "lookup bitfield pos offset =
     (let new_pos = rank bitfield pos
      in (new_pos, rank bitfield (pos + offset) - new_pos))"

subsection \<open>The disk\<close>

text \<open>
  Modelled from the spec: \<^verbatim>\<open>FileDisk\<close> (absent header), a read/write/truncate interface
  over one file. A file is its byte sequence. A read that reaches past the end of the
  file is a short read, which is fatal; a write past the end extends the file; a
  truncation sets the length.
\<close>

definition disk_Read :: "byte list \<Rightarrow> nat \<Rightarrow> nat \<Rightarrow> error + byte list" where
  "disk_Read disk begin len =
     (if begin + len \<le> length disk then Inr (take len (drop begin disk)) else Inl ShortRead)"

definition disk_Write :: "byte list \<Rightarrow> nat \<Rightarrow> byte list \<Rightarrow> byte list" where
  "disk_Write disk begin bytes =
     take begin (disk @ replicate (begin - length disk) 0) @ bytes
       @ drop (begin + length bytes) disk"

definition disk_Truncate :: "byte list \<Rightarrow> nat \<Rightarrow> byte list" where
  "disk_Truncate disk new_size = take new_size disk @ replicate (new_size - length disk) 0"

subsection \<open>What the phase takes from absent headers\<close>

text \<open>
  \<^verbatim>\<open>EntrySizes::GetMaxEntrySize(k, table_index, false)\<close>, the constant \<^verbatim>\<open>kOffsetSize\<close> and
  the \<^verbatim>\<open>SortManager\<close> are parameters. The sort manager is used through its contract
  only: it is constructed with the cache size, the bucket count and its logarithm, the
  entry size and the first bit of the key, entries are added, the cache is flushed, and
  \<^verbatim>\<open>ReadEntry(position)\<close> then points into the sorted byte stream. \<open>SortManager\<close> maps
  the constructor's arguments and the entries added, in order, to that stream.
\<close>

record externals =
  GetMaxEntrySize :: "nat \<Rightarrow> nat \<Rightarrow> nat"
  kOffsetSize :: nat
  SortManager :: "nat \<Rightarrow> nat \<Rightarrow> nat \<Rightarrow> nat \<Rightarrow> nat \<Rightarrow> bool list list \<Rightarrow> byte list"

definition ReadEntry :: "byte list \<Rightarrow> nat \<Rightarrow> nat \<Rightarrow> byte list" where
  "ReadEntry stream position entry_size = take entry_size (drop position stream)"

subsection \<open>First scan of a table: building the next bitfield\<close>

text \<open>
  \<^verbatim>\<open>std::vector<bool>::operator[]\<close> checks no bounds. An access outside the vector is
  the error \<open>OutOfBounds\<close> of the model.
\<close>

definition set_bit :: "bool list \<Rightarrow> nat \<Rightarrow> error + bool list" where
  "set_bit bitfield p =
     (if p < length bitfield then Inr (bitfield[p := True]) else Inl OutOfBounds)"

text \<open>Lines 120 to 122: mark the two matching entries as used.\<close>

definition mark_used :: "bool list \<Rightarrow> nat \<Rightarrow> nat \<Rightarrow> error + bool list" where
  "mark_used next_bitfield entry_pos entry_offset =
     (case set_bit next_bitfield entry_pos of
        Inl e \<Rightarrow> Inl e
      | Inr b \<Rightarrow> set_bit b (entry_pos + entry_offset))"

text \<open>
  Lines 103 to 122, the body of the inner loop of the first scan, at the entry the
  pointer \<open>i\<close> addresses (the bytes of the read buffer from \<open>i\<close> on). A dropped entry
  leaves the next bitfield as it is.
\<close>

definition scan_entry ::
  "nat \<Rightarrow> nat \<Rightarrow> nat \<Rightarrow> bool list \<Rightarrow> byte list \<Rightarrow> nat \<Rightarrow> bool list \<Rightarrow> error + bool list" where
  "scan_entry k kOffset table_index current_bitfield i read_index next_bitfield =
     (if table_index = 7 then
        mark_used next_bitfield (SliceInt64FromBytes i k k)
          (SliceInt64FromBytes i (k + k) kOffset)
      else if \<not> read_index < length current_bitfield then Inl OutOfBounds
      else if \<not> current_bitfield ! read_index then Inr next_bitfield
      else
        mark_used next_bitfield (SliceInt64FromBytes i 0 k) (SliceInt64FromBytes i k kOffset))"

text \<open>
  Lines 99 to 123, the loop over the cached entries. The entry size is positive here:
  line 82 has divided by it.
\<close>

function scan_buffer ::
  "nat \<Rightarrow> nat \<Rightarrow> nat \<Rightarrow> nat \<Rightarrow> bool list \<Rightarrow> byte list \<Rightarrow> nat \<Rightarrow> nat \<Rightarrow> nat \<Rightarrow> bool list
   \<Rightarrow> error + nat \<times> bool list" where
  "scan_buffer k kOffset table_index entry_size current_bitfield read_buffer to_read i
     read_index next_bitfield =
     (if i < to_read \<and> 0 < entry_size then
        case scan_entry k kOffset table_index current_bitfield (drop i read_buffer)
               read_index next_bitfield of
          Inl e \<Rightarrow> Inl e
        | Inr b \<Rightarrow>
            scan_buffer k kOffset table_index entry_size current_bitfield read_buffer to_read
              (i + entry_size) (read_index + 1) b
      else Inr (read_index, next_bitfield))"
  by pat_completeness auto
termination
  by (relation "measure (\<lambda>(k, kOffset, table_index, entry_size, current_bitfield, read_buffer,
        to_read, i, read_index, next_bitfield). to_read - i)") auto

text \<open>
  Lines 88 to 124, the loop over the chunks of the table. It need not end (a read
  buffer of no bytes never advances), so not returning is the value \<open>None\<close>.
\<close>

partial_function (option) scan_table ::
  "nat \<Rightarrow> nat \<Rightarrow> nat \<Rightarrow> nat \<Rightarrow> nat \<Rightarrow> nat \<Rightarrow> bool list \<Rightarrow> byte list \<Rightarrow> nat \<Rightarrow> nat \<Rightarrow> bool list
   \<Rightarrow> (error + bool list) option" where
  "scan_table k kOffset table_index entry_size table_size read_buffer_size current_bitfield
     disk read_index read_cursor next_bitfield =
     (if read_index < table_size then
        let to_read = min read_buffer_size (table_size * entry_size - read_cursor) in
        case disk_Read disk read_cursor to_read of
          Inl e \<Rightarrow> Some (Inl e)
        | Inr read_buffer \<Rightarrow>
            (case scan_buffer k kOffset table_index entry_size current_bitfield read_buffer
                    to_read 0 read_index next_bitfield of
               Inl e \<Rightarrow> Some (Inl e)
             | Inr (read_index', next_bitfield') \<Rightarrow>
                 scan_table k kOffset table_index entry_size table_size read_buffer_size
                   current_bitfield disk read_index' (read_cursor + to_read) next_bitfield')
      else Some (Inr next_bitfield))"

subsection \<open>Second scan of a table: remapping and emitting\<close>

text \<open>\<^verbatim>\<open>Bits::ToBytes(i)\<close> copies the bytes of the new entry over the buffer at \<open>i\<close>.\<close>

definition copy_to :: "byte list \<Rightarrow> nat \<Rightarrow> byte list \<Rightarrow> byte list" where
  "copy_to buffer i bytes = take i buffer @ bytes @ drop (i + length bytes) buffer"

text \<open>
  Lines 174 to 228, the body of the inner loop of the second scan. For table 7 the
  entry is rewritten in the buffer and written back at its own offset; for the other
  tables a retained entry is handed to the sort manager, after the assertion of
  line 218; the index is the next bitfield. The counter \<open>write_counter\<close> advances with each entry not skipped.
\<close>

definition remap_entry ::
  "nat \<Rightarrow> nat \<Rightarrow> nat \<Rightarrow> nat \<Rightarrow> bool list \<Rightarrow> bool list \<Rightarrow> byte list \<Rightarrow> nat \<Rightarrow> nat \<Rightarrow> byte list
   \<Rightarrow> bool list list \<Rightarrow> nat \<Rightarrow> error + byte list \<times> byte list \<times> bool list list \<times> nat" where
  "remap_entry k kOffset table_index entry_size current_bitfield index read_buffer i
     read_index disk cache write_counter =
     (if table_index = 7 then
        let entry_f7 = SliceInt64FromBytes (drop i read_buffer) 0 k;
            entry_pos = SliceInt64FromBytes (drop i read_buffer) k k;
            entry_offset = SliceInt64FromBytes (drop i read_buffer) (k + k) kOffset;
            (new_pos, new_offset) = lookup index entry_pos entry_offset;
            new_entry = Bits entry_f7 k @ Bits new_pos k @ Bits new_offset kOffset;
            read_buffer' = copy_to read_buffer i (ToBytes new_entry)
        in Inr (read_buffer',
             disk_Write disk (read_index * entry_size) (take entry_size (drop i read_buffer')),
             cache, write_counter + 1)
      else if \<not> read_index < length current_bitfield then Inl OutOfBounds
      else if \<not> current_bitfield ! read_index then Inr (read_buffer, disk, cache, write_counter)
      else
        let entry_pos = SliceInt64FromBytes (drop i read_buffer) 0 k;
            entry_offset = SliceInt64FromBytes (drop i read_buffer) k kOffset;
            (new_pos, new_offset) = lookup index entry_pos entry_offset;
            new_entry = Bits write_counter (k + 1) @ Bits new_pos k @ Bits new_offset kOffset
        in if \<not> length new_entry \<le> entry_size * 8 then Inl AssertionFailed
           else
             Inr (read_buffer, disk,
               cache @
                 [if ByteAlign (length new_entry) < entry_size * 8
                  then new_entry @ Bits 0 (entry_size * 8 - length new_entry)
                  else new_entry],
               write_counter + 1))"

text \<open>Lines 170 to 229, the loop over the cached entries.\<close>

function remap_buffer ::
  "nat \<Rightarrow> nat \<Rightarrow> nat \<Rightarrow> nat \<Rightarrow> bool list \<Rightarrow> bool list \<Rightarrow> nat \<Rightarrow> byte list \<Rightarrow> nat \<Rightarrow> nat
   \<Rightarrow> byte list \<Rightarrow> bool list list \<Rightarrow> nat
   \<Rightarrow> error + nat \<times> byte list \<times> bool list list \<times> nat" where
  "remap_buffer k kOffset table_index entry_size current_bitfield index to_read read_buffer i
     read_index disk cache write_counter =
     (if i < to_read \<and> 0 < entry_size then
        case remap_entry k kOffset table_index entry_size current_bitfield index read_buffer i
               read_index disk cache write_counter of
          Inl e \<Rightarrow> Inl e
        | Inr (read_buffer', disk', cache', write_counter') \<Rightarrow>
            remap_buffer k kOffset table_index entry_size current_bitfield index to_read
              read_buffer' (i + entry_size) (read_index + 1) disk' cache' write_counter'
      else Inr (read_index, disk, cache, write_counter))"
  by pat_completeness auto
termination
  by (relation "measure (\<lambda>(k, kOffset, table_index, entry_size, current_bitfield, index,
        to_read, read_buffer, i, read_index, disk, cache, write_counter). to_read - i)") auto

text \<open>Lines 159 to 230, the loop over the chunks; each chunk is read from the file as
  it is then.\<close>

partial_function (option) remap_table ::
  "nat \<Rightarrow> nat \<Rightarrow> nat \<Rightarrow> nat \<Rightarrow> nat \<Rightarrow> nat \<Rightarrow> bool list \<Rightarrow> bool list \<Rightarrow> byte list \<Rightarrow> nat \<Rightarrow> nat
   \<Rightarrow> bool list list \<Rightarrow> nat \<Rightarrow> (error + byte list \<times> bool list list \<times> nat) option" where
  "remap_table k kOffset table_index entry_size table_size read_buffer_size current_bitfield
     index disk read_index read_cursor cache write_counter =
     (if read_index < table_size then
        let to_read = min read_buffer_size (table_size * entry_size - read_cursor) in
        case disk_Read disk read_cursor to_read of
          Inl e \<Rightarrow> Some (Inl e)
        | Inr read_buffer \<Rightarrow>
            (case remap_buffer k kOffset table_index entry_size current_bitfield index to_read
                    read_buffer 0 read_index disk cache write_counter of
               Inl e \<Rightarrow> Some (Inl e)
             | Inr (read_index', disk', cache', write_counter') \<Rightarrow>
                 remap_table k kOffset table_index entry_size table_size read_buffer_size
                   current_bitfield index disk' read_index' (read_cursor + to_read) cache'
                   write_counter')
      else Some (Inr (disk, cache, write_counter)))"

text \<open>Lines 239 to 243: the sorted entries are written back from offset 0.\<close>

function write_sorted :: "byte list \<Rightarrow> nat \<Rightarrow> nat \<Rightarrow> byte list \<Rightarrow> nat \<Rightarrow> byte list" where
  "write_sorted stream entry_size write_counter disk i =
     (if i < write_counter then
        write_sorted stream entry_size write_counter
          (disk_Write disk (i * entry_size) (ReadEntry stream (i * entry_size) entry_size))
          (i + 1)
      else disk)"
  by pat_completeness auto
termination
  by (relation "measure (\<lambda>(stream, entry_size, write_counter, disk, i). write_counter - i)")
    auto

subsection \<open>The loop over the tables 7 to 2\<close>

record phase2_state =
  tmp_1_disks :: "nat \<Rightarrow> byte list"
  new_table_sizes :: "nat list"
  current_bitfield :: "bool list"

text \<open>Line 82: the largest whole number of entries that fits in half the memory.\<close>

definition read_buffer_size :: "nat \<Rightarrow> nat \<Rightarrow> nat" where
  "read_buffer_size memory_size entry_size =
     memory_size div 2 - (memory_size div 2) mod entry_size"

text \<open>
  Lines 232 to 252, the end of an iteration: for the tables below 7 the sort manager is
  flushed, the sorted entries are written back, the file is truncated and the new size
  recorded; the next bitfield becomes the current one.
\<close>

definition finish_table ::
  "externals \<Rightarrow> nat \<Rightarrow> nat \<Rightarrow> nat \<Rightarrow> nat \<Rightarrow> nat \<Rightarrow> nat \<Rightarrow> phase2_state \<Rightarrow> bool list
   \<Rightarrow> byte list \<times> bool list list \<times> nat \<Rightarrow> phase2_state" where
  "finish_table ext k sort_cache_size num_buckets log_num_buckets table_index entry_size st
     next_bitfield scanned =
     (case scanned of (disk, cache, write_counter) \<Rightarrow>
        if table_index \<noteq> 7 then
          let stream = SortManager ext sort_cache_size num_buckets log_num_buckets entry_size
                         (k + 1) cache;
              disk' = disk_Truncate (write_sorted stream entry_size write_counter disk 0)
                        (write_counter * entry_size)
          in st\<lparr>tmp_1_disks := (tmp_1_disks st)(table_index := disk'),
                new_table_sizes := (new_table_sizes st)[table_index := write_counter],
                current_bitfield := next_bitfield\<rparr>
        else
          st\<lparr>tmp_1_disks := (tmp_1_disks st)(table_index := disk),
              current_bitfield := next_bitfield\<rparr>)"

text \<open>
  Lines 71 to 252, one iteration of the loop over the tables. The next bitfield is
  cleared and resized at the start. Line 82 divides by the entry size.
\<close>

definition backpropagate_table ::
  "externals \<Rightarrow> (nat \<Rightarrow> nat) \<Rightarrow> nat \<Rightarrow> nat \<Rightarrow> nat \<Rightarrow> nat \<Rightarrow> nat \<Rightarrow> phase2_state
   \<Rightarrow> (error + phase2_state) option" where
  "backpropagate_table ext table_sizes k memory_size num_buckets log_num_buckets table_index st =
     (let next_bitfield = replicate (table_sizes (table_index - 1)) False;
          table_size = table_sizes table_index;
          entry_size = GetMaxEntrySize ext k table_index
      in if entry_size = 0 then Some (Inl DivisionByZero)
         else
           case scan_table k (kOffsetSize ext) table_index entry_size table_size
                  (read_buffer_size memory_size entry_size) (current_bitfield st)
                  (tmp_1_disks st table_index) 0 0 next_bitfield of
             None \<Rightarrow> None
           | Some (Inl e) \<Rightarrow> Some (Inl e)
           | Some (Inr next_bitfield') \<Rightarrow>
               (case remap_table k (kOffsetSize ext) table_index entry_size table_size
                       (read_buffer_size memory_size entry_size) (current_bitfield st)
                       next_bitfield' (tmp_1_disks st table_index) 0 0 [] 0 of
                  None \<Rightarrow> None
                | Some (Inl e) \<Rightarrow> Some (Inl e)
                | Some (Inr scanned) \<Rightarrow>
                    Some (Inr (finish_table ext k
                      (memory_size - read_buffer_size memory_size entry_size) num_buckets
                      log_num_buckets table_index entry_size st next_bitfield' scanned))))"

text \<open>Line 69: \<^verbatim>\<open>for (int table_index = 7; table_index > 1; --table_index)\<close>.\<close>

function backpropagate ::
  "externals \<Rightarrow> (nat \<Rightarrow> nat) \<Rightarrow> nat \<Rightarrow> nat \<Rightarrow> nat \<Rightarrow> nat \<Rightarrow> nat \<Rightarrow> phase2_state
   \<Rightarrow> (error + phase2_state) option" where
  "backpropagate ext table_sizes k memory_size num_buckets log_num_buckets table_index st =
     (if table_index > 1 then
        case backpropagate_table ext table_sizes k memory_size num_buckets log_num_buckets
               table_index st of
          None \<Rightarrow> None
        | Some (Inl e) \<Rightarrow> Some (Inl e)
        | Some (Inr st') \<Rightarrow>
            backpropagate ext table_sizes k memory_size num_buckets log_num_buckets
              (table_index - 1) st'
      else Some (Inr st))"
  by pat_completeness auto
termination
  by (relation "measure (\<lambda>(ext, table_sizes, k, memory_size, num_buckets, log_num_buckets,
        table_index, st). table_index)") auto

subsection \<open>Compaction of table 1 and the whole phase\<close>

text \<open>Lines 267 to 281.\<close>

function compact_table_1 ::
  "nat \<Rightarrow> nat \<Rightarrow> bool list \<Rightarrow> byte list \<Rightarrow> nat \<Rightarrow> nat \<Rightarrow> nat \<Rightarrow> nat
   \<Rightarrow> error + byte list \<times> nat \<times> nat" where
  "compact_table_1 entry_size table_size bitfield disk read_counter read_cursor write_counter
     write_cursor =
     (if read_counter < table_size then
        if \<not> read_counter < length bitfield then Inl OutOfBounds
        else if bitfield ! read_counter = False then
          compact_table_1 entry_size table_size bitfield disk (read_counter + 1)
            (read_cursor + entry_size) write_counter write_cursor
        else
          case disk_Read disk read_cursor entry_size of
            Inl e \<Rightarrow> Inl e
          | Inr entry \<Rightarrow>
              compact_table_1 entry_size table_size bitfield
                (if write_cursor \<noteq> read_cursor then disk_Write disk write_cursor entry else disk)
                (read_counter + 1) (read_cursor + entry_size) (write_counter + 1)
                (write_cursor + entry_size)
      else Inr (disk, write_counter, write_cursor))"
  by pat_completeness auto
termination
  by (relation "measure (\<lambda>(entry_size, table_size, bitfield, disk, read_counter, read_cursor,
        write_counter, write_cursor). table_size - read_counter)") auto

text \<open>
  Lines 27 to 289. The arguments \<^verbatim>\<open>memory\<close>, \<^verbatim>\<open>id\<close>, \<^verbatim>\<open>tmp_dirname\<close> and \<^verbatim>\<open>filename\<close> name
  scratch space only. The result is the returned vector of new table sizes, with the
  table files as the phase leaves them.
\<close>

definition RunPhase2 ::
  "externals \<Rightarrow> (nat \<Rightarrow> byte list) \<Rightarrow> (nat \<Rightarrow> nat) \<Rightarrow> nat \<Rightarrow> nat \<Rightarrow> nat \<Rightarrow> nat
   \<Rightarrow> (error + nat list \<times> (nat \<Rightarrow> byte list)) option" where
  "RunPhase2 ext disks table_sizes k memory_size num_buckets log_num_buckets =
     (case backpropagate ext table_sizes k memory_size num_buckets log_num_buckets 7
             \<lparr>tmp_1_disks = disks,
              new_table_sizes = (replicate 8 0)[7 := table_sizes 7],
              current_bitfield = []\<rparr> of
        None \<Rightarrow> None
      | Some (Inl e) \<Rightarrow> Some (Inl e)
      | Some (Inr st) \<Rightarrow>
          (case compact_table_1 (GetMaxEntrySize ext k 1) (table_sizes 1) (current_bitfield st)
                  (tmp_1_disks st 1) 0 0 0 0 of
             Inl e \<Rightarrow> Some (Inl e)
           | Inr (disk, write_counter, write_cursor) \<Rightarrow>
               Some (Inr ((new_table_sizes st)[1 := write_counter],
                          (tmp_1_disks st)(1 := disk_Truncate disk write_cursor)))))"

section \<open>Notions the statements use\<close>

text \<open>
  Entry \<open>j\<close> of a table file, the two references an entry of table \<open>table_index\<close>
  holds (lines 108, 109, 116 and 117), and the test of lines 105 and 111 that keeps an
  entry: every entry of table 7, and the entries of the other tables whose bit is set
  in the current bitfield.
\<close>

definition entry_at :: "byte list \<Rightarrow> nat \<Rightarrow> nat \<Rightarrow> byte list" where
  "entry_at disk entry_size j = take entry_size (drop (j * entry_size) disk)"

definition entry_pos :: "nat \<Rightarrow> nat \<Rightarrow> byte list \<Rightarrow> nat" where
  "entry_pos k table_index e = SliceInt64FromBytes e (if table_index = 7 then k else 0) k"

definition entry_offset :: "nat \<Rightarrow> nat \<Rightarrow> nat \<Rightarrow> byte list \<Rightarrow> nat" where
  "entry_offset k kOffset table_index e =
     SliceInt64FromBytes e (if table_index = 7 then k + k else k) kOffset"

definition retained :: "nat \<Rightarrow> bool list \<Rightarrow> nat \<Rightarrow> bool" where
  "retained table_index bitfield j \<longleftrightarrow> table_index = 7 \<or> bitfield ! j"

text \<open>The fields an entry is read from lie within the entry.\<close>

definition fields_fit :: "nat \<Rightarrow> nat \<Rightarrow> nat \<Rightarrow> nat \<Rightarrow> bool" where
  "fields_fit k kOffset table_index entry_size \<longleftrightarrow>
     (if table_index = 7 then k + k + kOffset else k + kOffset) \<le> entry_size * 8"

text \<open>
  The entries of an index list scanned one after the other, whatever the chunking: the
  first scan is shown below to be this fold over \<open>[0..<table_size]\<close>.
\<close>

fun scan_entries ::
  "nat \<Rightarrow> nat \<Rightarrow> nat \<Rightarrow> nat \<Rightarrow> bool list \<Rightarrow> byte list \<Rightarrow> nat list \<Rightarrow> bool list
   \<Rightarrow> error + bool list" where
  "scan_entries k kOffset table_index entry_size bitfield disk [] next_bitfield =
     Inr next_bitfield"
| "scan_entries k kOffset table_index entry_size bitfield disk (j # js) next_bitfield =
     (case scan_entry k kOffset table_index bitfield (entry_at disk entry_size j) j
             next_bitfield of
        Inl e \<Rightarrow> Inl e
      | Inr b \<Rightarrow> scan_entries k kOffset table_index entry_size bitfield disk js b)"

text \<open>A bit string padded with zero bits to a whole number of bytes.\<close>

definition pad_bits :: "bool list \<Rightarrow> bool list" where
  "pad_bits bs = bs @ replicate (8 * ((length bs + 7) div 8) - length bs) False"

definition refs_in_bounds ::
  "nat \<Rightarrow> nat \<Rightarrow> nat \<Rightarrow> nat \<Rightarrow> bool list \<Rightarrow> byte list \<Rightarrow> nat \<Rightarrow> nat list \<Rightarrow> bool" where
  "refs_in_bounds k kOffset table_index entry_size bitfield disk next_size js \<longleftrightarrow>
     (\<forall>j \<in> set js.
        (table_index \<noteq> 7 \<longrightarrow> j < length bitfield) \<and>
        (retained table_index bitfield j \<longrightarrow>
           entry_pos k table_index (entry_at disk entry_size j)
             + entry_offset k kOffset table_index (entry_at disk entry_size j) < next_size))"

definition referenced ::
  "nat \<Rightarrow> nat \<Rightarrow> nat \<Rightarrow> nat \<Rightarrow> bool list \<Rightarrow> byte list \<Rightarrow> nat list \<Rightarrow> nat \<Rightarrow> bool" where
  "referenced k kOffset table_index entry_size bitfield disk js e \<longleftrightarrow>
     (\<exists>j \<in> set js. retained table_index bitfield j \<and>
        (entry_pos k table_index (entry_at disk entry_size j) = e \<or>
         entry_pos k table_index (entry_at disk entry_size j)
           + entry_offset k kOffset table_index (entry_at disk entry_size j) = e))"

fun remap_entries ::
  "nat \<Rightarrow> nat \<Rightarrow> nat \<Rightarrow> nat \<Rightarrow> bool list \<Rightarrow> bool list \<Rightarrow> nat list \<Rightarrow> byte list
   \<Rightarrow> bool list list \<Rightarrow> nat \<Rightarrow> error + byte list \<times> bool list list \<times> nat" where
  "remap_entries k kOffset table_index entry_size bitfield index [] disk cache write_counter =
     Inr (disk, cache, write_counter)"
| "remap_entries k kOffset table_index entry_size bitfield index (j # js) disk cache
     write_counter =
     (case remap_entry k kOffset table_index entry_size bitfield index
             (entry_at disk entry_size j) 0 j disk cache write_counter of
        Inl e \<Rightarrow> Inl e
      | Inr (buffer, disk', cache', write_counter') \<Rightarrow>
          remap_entries k kOffset table_index entry_size bitfield index js disk' cache'
            write_counter')"

definition new_entry_7 :: "nat \<Rightarrow> nat \<Rightarrow> bool list \<Rightarrow> byte list \<Rightarrow> bool list" where
  "new_entry_7 k kOffset index e =
     Bits (SliceInt64FromBytes e 0 k) k
     @ Bits (fst (lookup index (entry_pos k 7 e) (entry_offset k kOffset 7 e))) k
     @ Bits (snd (lookup index (entry_pos k 7 e) (entry_offset k kOffset 7 e))) kOffset"

definition new_entry :: "nat \<Rightarrow> nat \<Rightarrow> nat \<Rightarrow> bool list \<Rightarrow> nat \<Rightarrow> byte list \<Rightarrow> bool list" where
  "new_entry k kOffset table_index index write_counter e =
     Bits write_counter (k + 1)
     @ Bits (fst (lookup index (entry_pos k table_index e)
                    (entry_offset k kOffset table_index e))) k
     @ Bits (snd (lookup index (entry_pos k table_index e)
                    (entry_offset k kOffset table_index e))) kOffset"

definition zero_padded :: "nat \<Rightarrow> bool list \<Rightarrow> bool list" where
  "zero_padded entry_size bits =
     (if ByteAlign (length bits) < entry_size * 8
      then bits @ Bits 0 (entry_size * 8 - length bits) else bits)"

definition kept :: "nat \<Rightarrow> bool list \<Rightarrow> nat list \<Rightarrow> nat list" where
  "kept table_index bitfield js = filter (retained table_index bitfield) js"

definition emitted ::
  "nat \<Rightarrow> nat \<Rightarrow> nat \<Rightarrow> nat \<Rightarrow> bool list \<Rightarrow> byte list \<Rightarrow> nat \<Rightarrow> nat list \<Rightarrow> bool list list" where
  "emitted k kOffset table_index entry_size index disk write_counter js =
     map (\<lambda>(c, j). zero_padded entry_size
            (new_entry k kOffset table_index index c (entry_at disk entry_size j)))
       (zip [write_counter..<write_counter + length js] js)"

definition rewritten_7 :: "nat \<Rightarrow> nat \<Rightarrow> nat \<Rightarrow> bool list \<Rightarrow> byte list \<Rightarrow> byte list" where
  "rewritten_7 k kOffset entry_size index e =
     take entry_size (copy_to e 0 (ToBytes (new_entry_7 k kOffset index e)))"

definition next_liveness ::
  "nat \<Rightarrow> nat \<Rightarrow> nat \<Rightarrow> nat \<Rightarrow> bool list \<Rightarrow> byte list \<Rightarrow> nat \<Rightarrow> nat \<Rightarrow> bool list" where
  "next_liveness k kOffset table_index entry_size bitfield disk table_size next_size =
     map (referenced k kOffset table_index entry_size bitfield disk [0..<table_size])
       [0..<next_size]"

text \<open>
  The liveness set of table \<open>table_index\<close>: the current bitfield when the iteration for
  that table begins. It is empty for table 7 (line 64), and for the tables below it
  marks the entries that the retained entries of the table above reference.
\<close>

function liveness ::
  "externals \<Rightarrow> (nat \<Rightarrow> byte list) \<Rightarrow> (nat \<Rightarrow> nat) \<Rightarrow> nat \<Rightarrow> nat \<Rightarrow> bool list" where
  "liveness ext disks table_sizes k table_index =
     (if 7 \<le> table_index then []
      else next_liveness k (kOffsetSize ext) (table_index + 1)
             (GetMaxEntrySize ext k (table_index + 1))
             (liveness ext disks table_sizes k (table_index + 1)) (disks (table_index + 1))
             (table_sizes (table_index + 1)) (table_sizes table_index))"
  by pat_completeness auto

termination
  by (relation "measure (\<lambda>(ext, disks, table_sizes, k, table_index). 7 - table_index)") auto

definition survivors ::
  "externals \<Rightarrow> (nat \<Rightarrow> byte list) \<Rightarrow> (nat \<Rightarrow> nat) \<Rightarrow> nat \<Rightarrow> nat \<Rightarrow> nat list" where
  "survivors ext disks table_sizes k table_index =
     kept table_index (liveness ext disks table_sizes k table_index)
       [0..<table_sizes table_index]"

definition sorted_table ::
  "externals \<Rightarrow> (nat \<Rightarrow> byte list) \<Rightarrow> (nat \<Rightarrow> nat) \<Rightarrow> nat \<Rightarrow> nat \<Rightarrow> nat \<Rightarrow> nat \<Rightarrow> nat
   \<Rightarrow> byte list" where
  "sorted_table ext disks table_sizes k memory_size num_buckets log_num_buckets table_index =
     (let entry_size = GetMaxEntrySize ext k table_index;
          ks = survivors ext disks table_sizes k table_index;
          stream = SortManager ext (memory_size - read_buffer_size memory_size entry_size)
                     num_buckets log_num_buckets entry_size (k + 1)
                     (emitted k (kOffsetSize ext) table_index entry_size
                        (liveness ext disks table_sizes k (table_index - 1))
                        (disks table_index) 0 ks)
      in disk_Truncate (write_sorted stream entry_size (length ks) (disks table_index) 0)
           (length ks * entry_size))"

definition rewritten_table_7 ::
  "externals \<Rightarrow> (nat \<Rightarrow> byte list) \<Rightarrow> (nat \<Rightarrow> nat) \<Rightarrow> nat \<Rightarrow> byte list" where
  "rewritten_table_7 ext disks table_sizes k =
     (case remap_entries k (kOffsetSize ext) 7 (GetMaxEntrySize ext k 7) []
             (liveness ext disks table_sizes k 6) [0..<table_sizes 7] (disks 7) [] 0 of
        Inl e \<Rightarrow> disks 7
      | Inr (disk, cache, write_counter) \<Rightarrow> disk)"

definition compacted_table_1 ::
  "externals \<Rightarrow> (nat \<Rightarrow> byte list) \<Rightarrow> (nat \<Rightarrow> nat) \<Rightarrow> nat \<Rightarrow> byte list" where
  "compacted_table_1 ext disks table_sizes k =
     concat (map (entry_at (disks 1) (GetMaxEntrySize ext k 1))
       (survivors ext disks table_sizes k 1))"

definition phase2_sizes ::
  "externals \<Rightarrow> (nat \<Rightarrow> byte list) \<Rightarrow> (nat \<Rightarrow> nat) \<Rightarrow> nat \<Rightarrow> nat list" where
  "phase2_sizes ext disks table_sizes k =
     map (\<lambda>t. if t = 0 then 0 else length (survivors ext disks table_sizes k t)) [0..<8]"

definition phase2_disks ::
  "externals \<Rightarrow> (nat \<Rightarrow> byte list) \<Rightarrow> (nat \<Rightarrow> nat) \<Rightarrow> nat \<Rightarrow> nat \<Rightarrow> nat \<Rightarrow> nat \<Rightarrow> nat
   \<Rightarrow> byte list" where
  "phase2_disks ext disks table_sizes k memory_size num_buckets log_num_buckets t =
     (if t = 1 then compacted_table_1 ext disks table_sizes k
      else if 2 \<le> t \<and> t \<le> 6 then
        sorted_table ext disks table_sizes k memory_size num_buckets log_num_buckets t
      else if t = 7 then rewritten_table_7 ext disks table_sizes k
      else disks t)"

text \<open>
  The preconditions of a run, which the caller owes: every table file holds its
  entries, the fields lie within the entries, half the memory holds an entry of every
  table, every reference of a retained entry points into the table below, and the
  entries of the tables 2 to 6 are wide enough for the new format.
\<close>

definition tables_ok :: "externals \<Rightarrow> (nat \<Rightarrow> byte list) \<Rightarrow> (nat \<Rightarrow> nat) \<Rightarrow> nat \<Rightarrow> bool" where
  "tables_ok ext disks table_sizes k \<longleftrightarrow>
     (\<forall>t \<in> {2..7}. 0 < GetMaxEntrySize ext k t
        \<and> fields_fit k (kOffsetSize ext) t (GetMaxEntrySize ext k t)
        \<and> table_sizes t * GetMaxEntrySize ext k t \<le> length (disks t))
     \<and> table_sizes 1 * GetMaxEntrySize ext k 1 \<le> length (disks 1)"

definition memory_ok :: "externals \<Rightarrow> nat \<Rightarrow> nat \<Rightarrow> bool" where
  "memory_ok ext k memory_size \<longleftrightarrow> (\<forall>t \<in> {2..7}. GetMaxEntrySize ext k t \<le> memory_size div 2)"

definition references_ok ::
  "externals \<Rightarrow> (nat \<Rightarrow> byte list) \<Rightarrow> (nat \<Rightarrow> nat) \<Rightarrow> nat \<Rightarrow> bool" where
  "references_ok ext disks table_sizes k \<longleftrightarrow>
     (\<forall>t \<in> {2..7}. \<forall>j < table_sizes t.
        retained t (liveness ext disks table_sizes k t) j \<longrightarrow>
          entry_pos k t (entry_at (disks t) (GetMaxEntrySize ext k t) j)
          + entry_offset k (kOffsetSize ext) t (entry_at (disks t) (GetMaxEntrySize ext k t) j)
          < table_sizes (t - 1))"

definition widths_ok :: "externals \<Rightarrow> nat \<Rightarrow> bool" where
  "widths_ok ext k \<longleftrightarrow>
     (\<forall>t \<in> {2..6}. k + 1 + k + kOffsetSize ext \<le> GetMaxEntrySize ext k t * 8)"

definition run_ok ::
  "externals \<Rightarrow> (nat \<Rightarrow> byte list) \<Rightarrow> (nat \<Rightarrow> nat) \<Rightarrow> nat \<Rightarrow> nat \<Rightarrow> bool" where
  "run_ok ext disks table_sizes k memory_size \<longleftrightarrow>
     tables_ok ext disks table_sizes k \<and> memory_ok ext k memory_size
     \<and> references_ok ext disks table_sizes k \<and> widths_ok ext k"

text \<open>
  Modelled from the spec: the external sort stage (\<^verbatim>\<open>sort_manager.hpp\<close> is absent). After
  the flush it yields the entries added, each in its bytes, in ascending order of the
  bits that follow the first \<open>begin_bits\<close> bits; entries with equal keys keep the order
  in which they were added. The memory and bucket parameters do not enter the result.
\<close>

definition sort_stage :: "nat \<Rightarrow> nat \<Rightarrow> nat \<Rightarrow> nat \<Rightarrow> nat \<Rightarrow> bool list list \<Rightarrow> byte list" where
  "sort_stage cache_size num_buckets log_num_buckets entry_size begin_bits entries =
     concat (sort_key (\<lambda>e. SliceInt64FromBytes e begin_bits (entry_size * 8 - begin_bits))
       (map ToBytes entries))"

text \<open>
  A small run with \<open>k = 2\<close>, an offset field of one bit and entries of one byte. Table 7
  has two entries, which reference the positions 0, 1 and 1, 2 of table 6; the tables
  6 to 2 have four entries each, of which the last is referenced by nothing; table 1
  has four entries.
\<close>

definition example_ext :: externals where
  "example_ext = \<lparr>GetMaxEntrySize = (\<lambda>k t. 1), kOffsetSize = 1, SortManager = sort_stage\<rparr>"

definition example_disks :: "nat \<Rightarrow> byte list" where
  "example_disks t =
     (if t = 7 then [0x48, 0x98]
      else if t = 1 then [0xA0, 0xA1, 0xA2, 0xA3]
      else if 2 \<le> t \<and> t \<le> 6 then [0x20, 0x60, 0x80, 0xC0]
      else [])"

definition example_sizes :: "nat \<Rightarrow> nat" where
  "example_sizes t = (if t = 7 then 2 else if 1 \<le> t \<and> t \<le> 6 then 4 else 0)"

text \<open>The state of the small run when the iteration for table 6 begins.\<close>

definition example_state :: phase2_state where
  "example_state =
     \<lparr>tmp_1_disks = example_disks, new_table_sizes = [0, 0, 0, 0, 0, 0, 0, 2],
      current_bitfield = [True, True, True, False]\<rparr>"

text \<open>What a run returns, with the files of the tables 1 to 7 listed.\<close>

definition table_files ::
  "(error + nat list \<times> (nat \<Rightarrow> byte list)) option \<Rightarrow> (error + nat list \<times> byte list list) option"
  where
  "table_files r = map_option (map_sum id (\<lambda>(sizes, disks). (sizes, map disks [1..<8]))) r"

text \<open>
  The entries a second scan has handed to the sort manager, as bytes, and the sort keys
  read from the first \<open>k + 1\<close> bits of entries.
\<close>

definition handed_to_sort ::
  "(error + byte list \<times> bool list list \<times> nat) option \<Rightarrow> byte list list" where
  "handed_to_sort r =
     (case r of Some (Inr (disk, cache, write_counter)) \<Rightarrow> map ToBytes cache | _ \<Rightarrow> [])"

definition sort_keys :: "nat \<Rightarrow> byte list list \<Rightarrow> nat list" where
  "sort_keys k entries = map (\<lambda>e. SliceInt64FromBytes e 0 (k + 1)) entries"

text \<open>
  A run with \<open>k = 1\<close>, an offset field of three bits and entries of one byte. Table 7 has
  four entries, which reference the positions 0 to 4 of table 6; the tables 6 to 2 have
  five entries each, which reference the positions 0 to 4 of the table below; table 1
  has five entries. Every entry is referenced, and five is more than \<open>2 ^ (k + 1)\<close>.
\<close>

definition wide_ext :: externals where
  "wide_ext = \<lparr>GetMaxEntrySize = (\<lambda>k t. 1), kOffsetSize = 3, SortManager = sort_stage\<rparr>"

definition wide_disks :: "nat \<Rightarrow> byte list" where
  "wide_disks t =
     (if t = 7 then [0x08, 0x48, 0x50, 0x58]
      else if t = 1 then [0xA0, 0xA1, 0xA2, 0xA3, 0xA4]
      else if 2 \<le> t \<and> t \<le> 6 then [0x10, 0x90, 0xA0, 0xB0, 0x00]
      else [])"

definition wide_sizes :: "nat \<Rightarrow> nat" where
  "wide_sizes t = (if t = 7 then 4 else if 1 \<le> t \<and> t \<le> 6 then 5 else 0)"

text \<open>
  The small run above with other bits behind the offset field of the entries of table 7:
  the three bits that follow the five bits of \<open>f7\<close>, \<open>pos\<close> and \<open>offset\<close> are set.
\<close>

definition padded_disks :: "nat \<Rightarrow> byte list" where
  "padded_disks t = (if t = 7 then [0x4F, 0x9F] else example_disks t)"

text \<open>
  Modelled from the spec: a second external sort stage within the same contract, which
  asks that the entries be yielded in ascending order of the key and leaves the order
  of entries with equal keys open. This one yields entries with equal keys in the order
  in which they were added when \<open>log_num_buckets\<close> is even, and in the reverse order when
  it is odd.
\<close>

definition tie_sort_stage :: "nat \<Rightarrow> nat \<Rightarrow> nat \<Rightarrow> nat \<Rightarrow> nat \<Rightarrow> bool list list \<Rightarrow> byte list" where
  "tie_sort_stage cache_size num_buckets log_num_buckets entry_size begin_bits entries =
     concat (sort_key (\<lambda>e. SliceInt64FromBytes e begin_bits (entry_size * 8 - begin_bits))
       (if even log_num_buckets then map ToBytes entries else rev (map ToBytes entries)))"




text \<open>
  Every bit of the liveness sets of the tables 1 to 6 is set: the run drops no entry.
\<close>

definition fully_compacted ::
  "externals \<Rightarrow> (nat \<Rightarrow> byte list) \<Rightarrow> (nat \<Rightarrow> nat) \<Rightarrow> nat \<Rightarrow> bool" where
  "fully_compacted ext disks table_sizes k \<longleftrightarrow>
     (\<forall>t \<in> {1..6}. \<forall>j < table_sizes t. liveness ext disks table_sizes k t ! j)"

text \<open>
  A run with \<open>k = 1\<close>, an offset field of one bit and entries of one byte (the externals
  of the small run above) in which every entry is referenced: seven tables of two
  entries each, and the files these tables are left in by a run.
\<close>

definition dense_disks :: "nat \<Rightarrow> byte list" where
  "dense_disks t =
     (if t = 7 then [0x20, 0xC0]
      else if t = 1 then [0xAA, 0xBB]
      else if 2 \<le> t \<and> t \<le> 6 then [0x40, 0x80]
      else [])"

definition dense_disks_after :: "nat \<Rightarrow> byte list" where
  "dense_disks_after t =
     (if t = 7 then [0x20, 0xC0]
      else if t = 1 then [0xAA, 0xBB]
      else if 2 \<le> t \<and> t \<le> 6 then [0x10, 0x60]
      else [])"

definition dense_sizes :: "nat \<Rightarrow> nat" where
  "dense_sizes t = (if 1 \<le> t \<and> t \<le> 7 then 2 else 0)"

definition dense_sizes_after :: "nat list" where
  "dense_sizes_after = [0, 2, 2, 2, 2, 2, 2, 2]"

declare scan_table.simps [code] remap_table.simps [code]

declare scan_buffer.simps [simp del] remap_buffer.simps [simp del] write_sorted.simps [simp del]
  backpropagate.simps [simp del] compact_table_1.simps [simp del]

section \<open>Properties\<close>

subsection \<open>Bit strings and bytes\<close>

lemma length_Bits [simp]: "length (Bits v n) = n"
  by (simp add: Bits_def)

lemma length_bits_of_byte [simp]: "length (bits_of_byte b) = 8"
  by (simp add: bits_of_byte_def)

lemma length_bits_of_bytes [simp]: "length (bits_of_bytes bs) = 8 * length bs"
  by (induction bs) (simp_all add: bits_of_bytes_def)

lemma bits_of_bytes_append [simp]:
  "bits_of_bytes (xs @ ys) = bits_of_bytes xs @ bits_of_bytes ys"
  by (simp add: bits_of_bytes_def)

lemma bits_of_bytes_Nil [simp]: "bits_of_bytes [] = []"
  by (simp add: bits_of_bytes_def)

lemma bits_of_bytes_Cons [simp]: "bits_of_bytes (b # bs) = bits_of_byte b @ bits_of_bytes bs"
  by (simp add: bits_of_bytes_def)

lemma length_ToBytes [simp]: "length (ToBytes bs) = (length bs + 7) div 8"
  by (simp add: ToBytes_def)

lemma bits_of_byte_of_bits:
  assumes "length bs = 8"
  shows "bits_of_byte (byte_of_bits bs) = bs"
proof (rule nth_equalityI)
  show "length (bits_of_byte (byte_of_bits bs)) = length bs"
    using assms by simp
next
  fix i
  assume "i < length (bits_of_byte (byte_of_bits bs))"
  then have i: "i < 8" by simp
  then have "bits_of_byte (byte_of_bits bs) ! i = bit (byte_of_bits bs) (7 - i)"
    by (simp add: bits_of_byte_def)
  also have "\<dots> = rev bs ! (7 - i)"
    using assms i by (auto simp add: byte_of_bits_def bit_horner_sum_bit_word_iff)
  also have "\<dots> = bs ! i"
    using assms i by (simp add: rev_nth)
  finally show "bits_of_byte (byte_of_bits bs) ! i = bs ! i" .
qed

lemma bits_of_bytes_take: "bits_of_bytes (take m bs) = take (8 * m) (bits_of_bytes bs)"
proof (induction bs arbitrary: m)
  case Nil
  then show ?case by simp
next
  case (Cons b bs)
  show ?case
  proof (cases m)
    case 0
    then show ?thesis by simp
  next
    case (Suc m')
    with Cons show ?thesis by simp
  qed
qed

lemma bits_of_bytes_drop: "bits_of_bytes (drop m bs) = drop (8 * m) (bits_of_bytes bs)"
proof (induction bs arbitrary: m)
  case Nil
  then show ?case by simp
next
  case (Cons b bs)
  show ?case
  proof (cases m)
    case 0
    then show ?thesis by simp
  next
    case (Suc m')
    with Cons show ?thesis by simp
  qed
qed

lemma bits_of_bytes_map:
  "bits_of_bytes (map f js) = concat (map (\<lambda>j. bits_of_byte (f j)) js)"
  by (simp add: bits_of_bytes_def comp_def)

lemma concat_chunks:
  "length xs = 8 * n \<Longrightarrow> concat (map (\<lambda>j. take 8 (drop (8 * j) xs)) [0..<n]) = xs"
proof (induction n arbitrary: xs)
  case 0
  then show ?case by simp
next
  case (Suc n)
  have "[0..<Suc n] = 0 # map Suc [0..<n]"
    by (simp add: upt_conv_Cons map_Suc_upt del: upt_Suc)
  then have "concat (map (\<lambda>j. take 8 (drop (8 * j) xs)) [0..<Suc n])
      = take 8 xs @ concat (map (\<lambda>j. take 8 (drop (8 * j) (drop 8 xs))) [0..<n])"
    by (simp add: comp_def add.commute del: upt_Suc)
  also have "concat (map (\<lambda>j. take 8 (drop (8 * j) (drop 8 xs))) [0..<n]) = drop 8 xs"
    using Suc.prems by (intro Suc.IH) simp
  finally show ?case by simp
qed

lemma length_pad_bits: "length (pad_bits bs) = 8 * ((length bs + 7) div 8)"
  unfolding pad_bits_def by simp

lemma take_drop_pad:
  assumes "j < (length bs + 7) div 8"
  shows "take 8 (drop (8 * j) (bs @ replicate 7 False)) = take 8 (drop (8 * j) (pad_bits bs))"
proof -
  let ?p = "8 * ((length bs + 7) div 8) - length bs"
  have p: "?p \<le> 7" by arith
  have len: "8 * j + 8 \<le> length (pad_bits bs)"
    using assms unfolding length_pad_bits by arith
  have "replicate 7 False = replicate ?p False @ replicate (7 - ?p) False"
    using p unfolding replicate_add [symmetric] by simp
  then have "bs @ replicate 7 False = pad_bits bs @ replicate (7 - ?p) False"
    unfolding pad_bits_def by simp
  with len show ?thesis by simp
qed

lemma bits_of_bytes_ToBytes: "bits_of_bytes (ToBytes bs) = pad_bits bs"
proof -
  let ?n = "(length bs + 7) div 8"
  have "bits_of_bytes (ToBytes bs)
      = concat (map (\<lambda>j. bits_of_byte (byte_of_bits (take 8 (drop (8 * j) (bs @ replicate 7 False))))) [0..<?n])"
    by (simp add: ToBytes_def bits_of_bytes_map)
  also have "\<dots> = concat (map (\<lambda>j. take 8 (drop (8 * j) (pad_bits bs))) [0..<?n])"
  proof -
    have "\<And>j. j < ?n \<Longrightarrow>
        bits_of_byte (byte_of_bits (take 8 (drop (8 * j) (bs @ replicate 7 False))))
        = take 8 (drop (8 * j) (pad_bits bs))"
    proof -
      fix j assume j: "j < ?n"
      have l: "length (take 8 (drop (8 * j) (pad_bits bs))) = 8"
        using j by (simp add: length_pad_bits)
      show "bits_of_byte (byte_of_bits (take 8 (drop (8 * j) (bs @ replicate 7 False))))
        = take 8 (drop (8 * j) (pad_bits bs))"
        unfolding take_drop_pad [OF j] using l by (rule bits_of_byte_of_bits)
    qed
    then show ?thesis by (intro arg_cong [where f = concat] map_cong) simp_all
  qed
  also have "\<dots> = pad_bits bs"
    by (rule concat_chunks) (rule length_pad_bits)
  finally show ?thesis .
qed

lemma rev_Bits: "rev (Bits v n) = map (bit v) [0..<n]"
  by (rule nth_equalityI) (simp_all add: Bits_def rev_nth)

lemma bits_to_nat_Bits: "bits_to_nat (Bits v n) = take_bit n v"
  by (simp add: bits_to_nat_def rev_Bits horner_sum_bit_eq_take_bit)

lemma bits_to_nat_less: "bits_to_nat bs < 2 ^ length bs"
proof -
  have "horner_sum of_bool (2::nat) xs < 2 ^ length xs" for xs
    by (induction xs) simp_all
  from this [of "rev bs"] show ?thesis by (simp add: bits_to_nat_def)
qed


subsection \<open>The rank index\<close>

lemma rank_Suc:
  "p < length bitfield \<Longrightarrow>
   rank bitfield (Suc p) = rank bitfield p + (if bitfield ! p then 1 else 0)"
  by (simp add: rank_def take_Suc_conv_app_nth)

lemma rank_mono: "a \<le> b \<Longrightarrow> rank bitfield a \<le> rank bitfield b"
proof (induction b)
  case 0
  then show ?case by simp
next
  case (Suc b)
  show ?case
  proof (cases "a = Suc b")
    case True
    then show ?thesis by simp
  next
    case False
    with Suc have le: "rank bitfield a \<le> rank bitfield b" by simp
    show ?thesis
    proof (cases "b < length bitfield")
      case True
      with le show ?thesis by (simp add: rank_Suc)
    next
      case False
      then have "rank bitfield (Suc b) = rank bitfield b" by (simp add: rank_def)
      with le show ?thesis by simp
    qed
  qed
qed

text \<open>
  C7. The compacted position is strictly order-preserving on retained positions: for
  original positions \<open>a < b\<close> whose liveness bits are both set, \<open>rank a < rank b\<close>.
\<close>

theorem rank_strict_mono_on_retained:
  assumes "a < b" and "b < length bitfield" and "bitfield ! a" and "bitfield ! b"
  shows "rank bitfield a < rank bitfield b"
proof -
  from assms have a: "a < length bitfield" by simp
  from a assms(3) have "rank bitfield (Suc a) = rank bitfield a + 1"
    by (simp add: rank_Suc)
  moreover from assms(1) have "rank bitfield (Suc a) \<le> rank bitfield b"
    by (intro rank_mono) simp
  ultimately show ?thesis by simp
qed

theorem rank_strict_mono_on_retained_witness:
  "(1::nat) < 3 \<and> 3 < length [False, True, False, True] \<and> [False, True, False, True] ! 1
   \<and> [False, True, False, True] ! 3
   \<and> rank [False, True, False, True] 1 < rank [False, True, False, True] 3"
  using rank_strict_mono_on_retained [of 1 3 "[False, True, False, True]"]
  by (simp add: rank_def)

subsection \<open>The first scan is a fold over the entries\<close>

lemma Slice_take:
  assumes "start + n \<le> m * 8"
  shows "SliceInt64FromBytes (take m bytes) start n = SliceInt64FromBytes bytes start n"
proof -
  have "take n (drop start (take (8 * m) (bits_of_bytes bytes)))
      = take n (drop start (bits_of_bytes bytes))"
    using assms by (simp add: drop_take min_def)
  then show ?thesis
    by (simp add: SliceInt64FromBytes_def bits_of_bytes_take)
qed

lemma scan_entry_take:
  assumes "fields_fit k kOffset table_index entry_size"
  shows "scan_entry k kOffset table_index cur (take entry_size ptr) r nb
       = scan_entry k kOffset table_index cur ptr r nb"
  using assms by (simp add: scan_entry_def fields_fit_def Slice_take split: if_splits)

lemma chunk_entry:
  assumes "a < c"
  shows "take es (drop (a * es) (take (c * es) (drop (r0 * es) disk))) = entry_at disk es (r0 + a)"
proof -
  from assms have "Suc a \<le> c" by simp
  then have "Suc a * es \<le> c * es" by (rule mult_le_mono1)
  then have "es \<le> c * es - a * es" by simp
  then show ?thesis
    by (simp add: entry_at_def drop_take min_def add_mult_distrib add.commute)
qed

lemma scan_buffer_entries:
  assumes es: "0 < es" and fit: "fields_fit k kOffset table_index es"
  shows "a \<le> c \<Longrightarrow>
     scan_buffer k kOffset table_index es cur (take (c * es) (drop (r0 * es) disk)) (c * es)
       (a * es) (r0 + a) nb
     = (case scan_entries k kOffset table_index es cur disk [r0 + a..<r0 + c] nb of
          Inl e \<Rightarrow> Inl e
        | Inr b \<Rightarrow> Inr (r0 + c, b))"
proof (induction "c - a" arbitrary: a nb)
  case 0
  then have "a = c" by simp
  then show ?case by (simp add: scan_buffer.simps)
next
  case (Suc d)
  then have ac: "a < c" by simp
  with es have lt: "a * es < c * es" by simp
  let ?buf = "take (c * es) (drop (r0 * es) disk)"
  have ent: "scan_entry k kOffset table_index cur (drop (a * es) ?buf) (r0 + a) nb
      = scan_entry k kOffset table_index cur (entry_at disk es (r0 + a)) (r0 + a) nb"
    using scan_entry_take [OF fit, of cur "drop (a * es) ?buf" "r0 + a" nb]
    by (simp only: chunk_entry [OF ac])
  have upt: "[r0 + a..<r0 + c] = (r0 + a) # [r0 + Suc a..<r0 + c]"
    using ac by (simp add: upt_conv_Cons)
  have IH: "\<And>b. scan_buffer k kOffset table_index es cur ?buf (c * es) (Suc a * es) (r0 + Suc a) b
     = (case scan_entries k kOffset table_index es cur disk [r0 + Suc a..<r0 + c] b of
          Inl e \<Rightarrow> Inl e
        | Inr b' \<Rightarrow> Inr (r0 + c, b'))"
    using Suc.hyps(2) ac by (intro Suc.hyps(1)) simp_all
  have "scan_buffer k kOffset table_index es cur ?buf (c * es) (a * es) (r0 + a) nb
      = (case scan_entry k kOffset table_index cur (drop (a * es) ?buf) (r0 + a) nb of
           Inl e \<Rightarrow> Inl e
         | Inr b \<Rightarrow> scan_buffer k kOffset table_index es cur ?buf (c * es) (a * es + es)
             (r0 + a + 1) b)"
    by (subst scan_buffer.simps) (simp add: ac es)
  also have "\<dots> = (case scan_entry k kOffset table_index cur (entry_at disk es (r0 + a)) (r0 + a) nb of
           Inl e \<Rightarrow> Inl e
         | Inr b \<Rightarrow> scan_buffer k kOffset table_index es cur ?buf (c * es) (Suc a * es)
             (r0 + Suc a) b)"
  proof -
    have "a * es + es = Suc a * es" and "r0 + a + 1 = r0 + Suc a" by simp_all
    then show ?thesis by (simp only: ent)
  qed
  also have "\<dots> = (case scan_entry k kOffset table_index cur (entry_at disk es (r0 + a)) (r0 + a) nb of
           Inl e \<Rightarrow> Inl e
         | Inr b \<Rightarrow> (case scan_entries k kOffset table_index es cur disk [r0 + Suc a..<r0 + c] b of
               Inl e \<Rightarrow> Inl e
             | Inr b' \<Rightarrow> Inr (r0 + c, b')))"
    by (simp only: IH)
  also have "\<dots> = (case scan_entries k kOffset table_index es cur disk [r0 + a..<r0 + c] nb of
          Inl e \<Rightarrow> Inl e
        | Inr b \<Rightarrow> Inr (r0 + c, b))"
    unfolding upt by (simp split: sum.splits)
  finally show ?case .
qed

lemma scan_entries_append:
  "scan_entries k kOffset table_index es cur disk (xs @ ys) nb
   = (case scan_entries k kOffset table_index es cur disk xs nb of
        Inl e \<Rightarrow> Inl e
      | Inr b \<Rightarrow> scan_entries k kOffset table_index es cur disk ys b)"
  by (induction xs arbitrary: nb) (simp_all split: sum.splits)

lemma scan_table_entries:
  assumes es: "0 < es" and m: "0 < m" and fit: "fields_fit k kOffset table_index es"
    and len: "n * es \<le> length disk"
  shows "r \<le> n \<Longrightarrow>
     scan_table k kOffset table_index es n (m * es) cur disk r (r * es) nb
     = Some (scan_entries k kOffset table_index es cur disk [r..<n] nb)"
proof (induction "n - r" arbitrary: r nb rule: less_induct)
  case less
  show ?case
  proof (cases "r < n")
    case False
    with less.prems have "r = n" by simp
    then show ?thesis by (subst scan_table.simps) simp
  next
    case True
    define c where "c = min m (n - r)"
    have c: "0 < c" "r + c \<le> n" using True m by (simp_all add: c_def)
    have to_read: "min (m * es) (n * es - r * es) = c * es"
      by (simp add: c_def nat_mult_min_left diff_mult_distrib)
    have rd: "disk_Read disk (r * es) (c * es) = Inr (take (c * es) (drop (r * es) disk))"
    proof -
      have "(r + c) * es \<le> n * es" using c(2) by (rule mult_le_mono1)
      with len show ?thesis by (simp add: disk_Read_def add_mult_distrib)
    qed
    have buf: "scan_buffer k kOffset table_index es cur (take (c * es) (drop (r * es) disk))
         (c * es) 0 r nb
       = (case scan_entries k kOffset table_index es cur disk [r..<r + c] nb of
            Inl e \<Rightarrow> Inl e
          | Inr b \<Rightarrow> Inr (r + c, b))"
      using scan_buffer_entries [OF es fit, of 0 c cur r disk nb] by simp
    have rec: "\<And>b. scan_table k kOffset table_index es n (m * es) cur disk (r + c) ((r + c) * es) b
       = Some (scan_entries k kOffset table_index es cur disk [r + c..<n] b)"
      using c True by (intro less.hyps) simp_all
    have split: "[r..<n] = [r..<r + c] @ [r + c..<n]"
      using c(2) by (metis le_add1 upt_add_eq_append le_Suc_ex)
    have "scan_table k kOffset table_index es n (m * es) cur disk r (r * es) nb
        = (case scan_entries k kOffset table_index es cur disk [r..<r + c] nb of
             Inl e \<Rightarrow> Some (Inl e)
           | Inr b \<Rightarrow> scan_table k kOffset table_index es n (m * es) cur disk (r + c)
               (r * es + c * es) b)"
      by (subst scan_table.simps) (simp add: True to_read rd buf split: sum.splits)
    also have "\<dots> = (case scan_entries k kOffset table_index es cur disk [r..<r + c] nb of
             Inl e \<Rightarrow> Some (Inl e)
           | Inr b \<Rightarrow> Some (scan_entries k kOffset table_index es cur disk [r + c..<n] b))"
      using rec by (simp add: add_mult_distrib split: sum.splits)
    also have "\<dots> = Some (scan_entries k kOffset table_index es cur disk [r..<n] nb)"
      unfolding split scan_entries_append by (simp split: sum.splits)
    finally show ?thesis .
  qed
qed

subsection \<open>The next bitfield in closed form\<close>

lemma mark_used_eq:
  "mark_used nb p off =
     (if p + off < length nb then Inr (nb[p := True, p + off := True]) else Inl OutOfBounds)"
  by (simp add: mark_used_def set_bit_def)

lemma scan_entry_eq:
  "scan_entry k kOffset table_index cur e j nb =
     (if table_index \<noteq> 7 \<and> \<not> j < length cur then Inl OutOfBounds
      else if \<not> retained table_index cur j then Inr nb
      else mark_used nb (entry_pos k table_index e) (entry_offset k kOffset table_index e))"
  by (simp add: scan_entry_def retained_def entry_pos_def entry_offset_def)

lemma refs_in_bounds_Cons:
  "refs_in_bounds k kOffset table_index es cur disk n' (j # js) \<longleftrightarrow>
     (table_index \<noteq> 7 \<longrightarrow> j < length cur) \<and>
     (retained table_index cur j \<longrightarrow>
        entry_pos k table_index (entry_at disk es j)
          + entry_offset k kOffset table_index (entry_at disk es j) < n') \<and>
     refs_in_bounds k kOffset table_index es cur disk n' js"
  by (simp add: refs_in_bounds_def)

lemma referenced_Cons:
  "referenced k kOffset table_index es cur disk (j # js) e \<longleftrightarrow>
     (retained table_index cur j \<and>
        (entry_pos k table_index (entry_at disk es j) = e \<or>
         entry_pos k table_index (entry_at disk es j)
           + entry_offset k kOffset table_index (entry_at disk es j) = e)) \<or>
     referenced k kOffset table_index es cur disk js e"
  by (simp add: referenced_def)

lemma nth_marked:
  "e < length nb \<Longrightarrow> (nb[p := True, q := True]) ! e \<longleftrightarrow> nb ! e \<or> p = e \<or> q = e"
  by (cases "q = e"; cases "p = e") (simp_all add: nth_list_update)

lemma scan_entries_eq:
  "scan_entries k kOffset table_index es cur disk js nb =
     (if refs_in_bounds k kOffset table_index es cur disk (length nb) js
      then Inr (map (\<lambda>e. nb ! e \<or> referenced k kOffset table_index es cur disk js e)
                  [0..<length nb])
      else Inl OutOfBounds)"
proof (induction js arbitrary: nb)
  case Nil
  show ?case
    by (simp add: refs_in_bounds_def referenced_def map_nth)
next
  case (Cons j js)
  let ?p = "entry_pos k table_index (entry_at disk es j)"
  let ?o = "entry_offset k kOffset table_index (entry_at disk es j)"
  show ?case
  proof (cases "table_index \<noteq> 7 \<and> \<not> j < length cur")
    case True
    then show ?thesis
      by (simp add: scan_entry_eq refs_in_bounds_Cons)
  next
    case inb: False
    show ?thesis
    proof (cases "retained table_index cur j")
      case False
      with inb show ?thesis
        by (simp add: scan_entry_eq refs_in_bounds_Cons referenced_Cons Cons.IH)
    next
      case True
      show ?thesis
      proof (cases "?p + ?o < length nb")
        case False
        with inb True show ?thesis
          by (simp add: scan_entry_eq mark_used_eq refs_in_bounds_Cons)
      next
        case lt: True
        have upd: "\<And>e. e < length nb \<Longrightarrow>
            (nb[?p := True, ?p + ?o := True]) ! e \<longleftrightarrow> nb ! e \<or> ?p = e \<or> ?p + ?o = e"
          by (rule nth_marked)
        have "map (\<lambda>e. (nb[?p := True, ?p + ?o := True]) ! e
                  \<or> referenced k kOffset table_index es cur disk js e) [0..<length nb]
            = map (\<lambda>e. nb ! e \<or> referenced k kOffset table_index es cur disk (j # js) e)
                [0..<length nb]"
          using True by (intro map_cong refl) (auto simp add: upd referenced_Cons)
        with inb True lt show ?thesis
          by (simp add: scan_entry_eq mark_used_eq refs_in_bounds_Cons Cons.IH)
      qed
    qed
  qed
qed

lemma read_buffer_size_eq:
  "read_buffer_size memory_size es = (memory_size div 2 div es) * es"
  by (simp add: read_buffer_size_def minus_mod_eq_div_mult)

lemma referenced_upt:
  "referenced k kOffset table_index es cur disk [0..<n] e \<longleftrightarrow>
     (\<exists>j<n. retained table_index cur j \<and>
        (entry_pos k table_index (entry_at disk es j) = e \<or>
         entry_pos k table_index (entry_at disk es j)
           + entry_offset k kOffset table_index (entry_at disk es j) = e))"
  by (auto simp add: referenced_def)

lemma scan_table_eq:
  assumes "0 < es" and "es \<le> memory_size div 2" and "fields_fit k kOffset table_index es"
    and "n * es \<le> length disk"
  shows "scan_table k kOffset table_index es n (read_buffer_size memory_size es) cur disk 0 0 nb
     = Some (scan_entries k kOffset table_index es cur disk [0..<n] nb)"
proof -
  have "0 < memory_size div 2 div es"
    using assms(1,2) by (simp add: div_greater_zero_iff)
  from scan_table_entries [OF assms(1) this assms(3,4), of 0 cur nb]
  show ?thesis by (simp add: read_buffer_size_eq)
qed

subsection \<open>The second scan is a fold over the entries\<close>

lemma split_disk:
  assumes "q + i + es \<le> length disk" and "t \<le> es"
  obtains A0 A1 E1 E2 B where "disk = A0 @ A1 @ E1 @ E2 @ B" and "length A0 = q"
    and "length A1 = i" and "length E1 = t" and "length E2 = es - t"
proof
  let ?A0 = "take q disk" and ?A1 = "take i (drop q disk)"
    and ?E1 = "take t (drop (q + i) disk)" and ?E2 = "take (es - t) (drop (q + i + t) disk)"
    and ?B = "drop (q + i + es) disk"
  have "?E2 @ ?B = drop (q + i + t) disk"
  proof -
    have "es - t + (q + i + t) = q + i + es"
      using assms(2) by simp
    then have "?B = drop (es - t) (drop (q + i + t) disk)"
      by (simp only: drop_drop)
    then show ?thesis by (simp only: append_take_drop_id)
  qed
  moreover have "?E1 @ drop (q + i + t) disk = drop (q + i) disk"
  proof -
    have "t + (q + i) = q + i + t" by simp
    then have "drop (q + i + t) disk = drop t (drop (q + i) disk)"
      by (simp only: drop_drop)
    then show ?thesis by (simp only: append_take_drop_id)
  qed
  moreover have "?A1 @ drop (q + i) disk = drop q disk"
  proof -
    have "i + q = q + i" by simp
    then have "drop (q + i) disk = drop i (drop q disk)"
      by (simp only: drop_drop)
    then show ?thesis by (simp only: append_take_drop_id)
  qed
  ultimately show "disk = ?A0 @ ?A1 @ ?E1 @ ?E2 @ ?B"
    by (simp only: append_take_drop_id)
  show "length ?A0 = q" "length ?A1 = i" "length ?E1 = t" "length ?E2 = es - t"
    using assms by simp_all
qed

lemma chunk_rewrite:
  assumes "length A0 = q" and "length A1 = i" and "length E1 = length tb"
    and "length tb + length E2 = es" and "i + es \<le> C"
  shows "take es (drop i (copy_to (take C (drop q (A0 @ A1 @ E1 @ E2 @ B))) i tb)) = tb @ E2"
    and "take es (drop 0 (copy_to (take es (drop (q + i) (A0 @ A1 @ E1 @ E2 @ B))) 0 tb)) = tb @ E2"
    and "take C (drop q (disk_Write (A0 @ A1 @ E1 @ E2 @ B) (q + i) (tb @ E2)))
         = copy_to (take C (drop q (A0 @ A1 @ E1 @ E2 @ B))) i tb"
    and "length (disk_Write (A0 @ A1 @ E1 @ E2 @ B) (q + i) (tb @ E2))
         = length (A0 @ A1 @ E1 @ E2 @ B)"
  using assms by (simp_all add: copy_to_def disk_Write_def)

lemma remap_entry_eq:
  "remap_entry k kOffset table_index es cur index buf i r disk cache wc =
     (if table_index = 7 then
        Inr (copy_to buf i (ToBytes (new_entry_7 k kOffset index (drop i buf))),
             disk_Write disk (r * es)
               (take es (drop i (copy_to buf i (ToBytes (new_entry_7 k kOffset index (drop i buf)))))),
             cache, wc + 1)
      else if \<not> r < length cur then Inl OutOfBounds
      else if \<not> cur ! r then Inr (buf, disk, cache, wc)
      else if \<not> k + 1 + k + kOffset \<le> es * 8 then Inl AssertionFailed
      else Inr (buf, disk,
             cache @ [zero_padded es (new_entry k kOffset table_index index wc (drop i buf))],
             wc + 1))"
  by (simp add: remap_entry_def new_entry_7_def new_entry_def zero_padded_def entry_pos_def
      entry_offset_def Let_def split: prod.splits)

lemma remap_entry_7:
  "remap_entry k kOffset 7 es cur index buf i r disk cache wc =
     Inr (copy_to buf i (ToBytes (new_entry_7 k kOffset index (drop i buf))),
          disk_Write disk (r * es)
            (take es (drop i (copy_to buf i (ToBytes (new_entry_7 k kOffset index (drop i buf)))))),
          cache, wc + 1)"
  by (simp add: remap_entry_eq)

lemma new_entry_7_take:
  assumes "fields_fit k kOffset 7 es"
  shows "new_entry_7 k kOffset index (take es ptr) = new_entry_7 k kOffset index ptr"
  using assms
  by (simp add: new_entry_7_def entry_pos_def entry_offset_def fields_fit_def Slice_take)

lemma new_entry_take:
  assumes "fields_fit k kOffset table_index es" and "table_index \<noteq> 7"
  shows "new_entry k kOffset table_index index wc (take es ptr)
       = new_entry k kOffset table_index index wc ptr"
  using assms
  by (simp add: new_entry_def entry_pos_def entry_offset_def fields_fit_def Slice_take)

lemma length_new_entry_7 [simp]: "length (new_entry_7 k kOffset index e) = k + k + kOffset"
  by (simp add: new_entry_7_def)

lemma length_new_entry [simp]:
  "length (new_entry k kOffset table_index index wc e) = k + 1 + k + kOffset"
  by (simp add: new_entry_def)

lemma remap_entry_chunk:
  assumes fit: "fields_fit k kOffset table_index es" and ac: "a < c"
    and len: "(r0 + c) * es \<le> length disk"
  shows "remap_entry k kOffset table_index es cur index (take (c * es) (drop (r0 * es) disk))
           (a * es) (r0 + a) disk cache wc
       = (case remap_entry k kOffset table_index es cur index (entry_at disk es (r0 + a)) 0
                 (r0 + a) disk cache wc of
            Inl e \<Rightarrow> Inl e
          | Inr (b, d, ca, w) \<Rightarrow> Inr (take (c * es) (drop (r0 * es) d), d, ca, w))"
proof (cases "table_index = 7")
  case False
  let ?buf = "take (c * es) (drop (r0 * es) disk)"
  have "new_entry k kOffset table_index index wc (drop (a * es) ?buf)
      = new_entry k kOffset table_index index wc (take es (drop (a * es) ?buf))"
    by (rule new_entry_take [OF fit False, symmetric])
  also have "\<dots> = new_entry k kOffset table_index index wc (entry_at disk es (r0 + a))"
    by (simp only: chunk_entry [OF ac])
  finally show ?thesis
    using False by (simp add: remap_entry_eq)
next
  case True
  let ?buf = "take (c * es) (drop (r0 * es) disk)"
  let ?e = "entry_at disk es (r0 + a)"
  define tb where "tb = ToBytes (new_entry_7 k kOffset index ?e)"
  have ne: "new_entry_7 k kOffset index (drop (a * es) ?buf) = new_entry_7 k kOffset index ?e"
  proof -
    have "new_entry_7 k kOffset index (drop (a * es) ?buf)
        = new_entry_7 k kOffset index (take es (drop (a * es) ?buf))"
      using fit True by (simp add: new_entry_7_take)
    then show ?thesis by (simp only: chunk_entry [OF ac])
  qed
  have tb: "length tb \<le> es"
    using fit True by (simp add: fields_fit_def tb_def)
  have "Suc a \<le> c" using ac by simp
  then have "Suc a * es \<le> c * es" by (rule mult_le_mono1)
  then have ies: "a * es + es \<le> c * es" by simp
  have "(r0 + c) * es = r0 * es + c * es" by (simp add: add_mult_distrib)
  with len ies have "r0 * es + a * es + es \<le> length disk" by simp
  from split_disk [OF this tb]
  obtain A0 A1 E1 E2 B where d: "disk = A0 @ A1 @ E1 @ E2 @ B"
    and l: "length A0 = r0 * es" "length A1 = a * es" "length E1 = length tb"
      "length E2 = es - length tb"
    by blast
  from l(4) tb have l4: "length tb + length E2 = es" by simp
  have pos: "(r0 + a) * es = r0 * es + a * es" by (simp add: add_mult_distrib)
  have e: "?e = take es (drop (r0 * es + a * es) disk)"
    by (simp add: entry_at_def pos)
  note cr = chunk_rewrite [OF l(1) l(2) l(3) l4 ies, of B]
  have w1: "take es (drop (a * es) (copy_to ?buf (a * es) tb)) = tb @ E2"
    unfolding d by (rule cr(1))
  have w2: "take es (drop 0 (copy_to ?e 0 tb)) = tb @ E2"
    unfolding e unfolding d by (rule cr(2))
  have b: "take (c * es) (drop (r0 * es) (disk_Write disk ((r0 + a) * es) (tb @ E2)))
      = copy_to ?buf (a * es) tb"
    unfolding pos d by (rule cr(3))
  have "remap_entry k kOffset table_index es cur index ?buf (a * es) (r0 + a) disk cache wc
      = Inr (copy_to ?buf (a * es) tb, disk_Write disk ((r0 + a) * es) (tb @ E2), cache, wc + 1)"
    by (simp only: True remap_entry_7 ne tb_def [symmetric] w1)
  moreover have "remap_entry k kOffset table_index es cur index ?e 0 (r0 + a) disk cache wc
      = Inr (copy_to ?e 0 tb, disk_Write disk ((r0 + a) * es) (tb @ E2), cache, wc + 1)"
    by (simp only: True remap_entry_7 drop_0 tb_def [symmetric] w2 [simplified])
  ultimately show ?thesis
    by (simp add: b)
qed

lemma length_disk_Write:
  "begin + length bytes \<le> length disk \<Longrightarrow> length (disk_Write disk begin bytes) = length disk"
  by (simp add: disk_Write_def)

lemma length_entry_at: "(j + 1) * es \<le> length disk \<Longrightarrow> length (entry_at disk es j) = es"
  by (simp add: entry_at_def)

lemma remap_entry_length:
  assumes "remap_entry k kOffset table_index es cur index (entry_at disk es j) 0 j disk cache wc
           = Inr (b, d, ca, w)"
    and fit: "fields_fit k kOffset table_index es" and len: "(j + 1) * es \<le> length disk"
  shows "length d = length disk"
proof (cases "table_index = 7")
  case False
  with assms(1) show ?thesis
    by (simp add: remap_entry_eq split: if_splits)
next
  case True
  let ?e = "entry_at disk es j"
  let ?tb = "ToBytes (new_entry_7 k kOffset index ?e)"
  have tb: "length ?tb \<le> es"
    using fit True by (simp add: fields_fit_def)
  have "length (take es (copy_to ?e 0 ?tb)) = es"
    using tb length_entry_at [OF len] by (simp add: copy_to_def)
  moreover have "j * es + es \<le> length disk" using len by simp
  ultimately have "length (disk_Write disk (j * es) (take es (copy_to ?e 0 ?tb))) = length disk"
    by (intro length_disk_Write) simp
  with assms(1) True show ?thesis
    by (auto simp add: remap_entry_7)
qed

lemma remap_entries_length:
  assumes fit: "fields_fit k kOffset table_index es"
  shows "remap_entries k kOffset table_index es cur index js disk cache wc = Inr (d, ca, w) \<Longrightarrow>
     \<forall>j \<in> set js. (j + 1) * es \<le> length disk \<Longrightarrow> length d = length disk"
proof (induction js arbitrary: disk cache wc)
  case Nil
  then show ?case by simp
next
  case (Cons j js)
  from Cons.prems(1) obtain b d' ca' w' where
    step: "remap_entry k kOffset table_index es cur index (entry_at disk es j) 0 j disk cache wc
           = Inr (b, d', ca', w')"
    and rest: "remap_entries k kOffset table_index es cur index js d' ca' w' = Inr (d, ca, w)"
    by (auto split: sum.splits)
  from Cons.prems(2) have "(j + 1) * es \<le> length disk" by simp
  from remap_entry_length [OF step fit this] have l: "length d' = length disk" .
  with Cons.prems(2) have "\<forall>j \<in> set js. (j + 1) * es \<le> length d'" by simp
  from Cons.IH [OF rest this] l show ?case by simp
qed

lemma remap_entries_append:
  "remap_entries k kOffset table_index es cur index (xs @ ys) disk cache wc
   = (case remap_entries k kOffset table_index es cur index xs disk cache wc of
        Inl e \<Rightarrow> Inl e
      | Inr (d, ca, w) \<Rightarrow> remap_entries k kOffset table_index es cur index ys d ca w)"
  by (induction xs arbitrary: disk cache wc) (simp_all split: sum.splits)

lemma remap_buffer_entries:
  assumes es: "0 < es" and fit: "fields_fit k kOffset table_index es"
  shows "a \<le> c \<Longrightarrow> (r0 + c) * es \<le> length disk \<Longrightarrow>
     remap_buffer k kOffset table_index es cur index (c * es)
       (take (c * es) (drop (r0 * es) disk)) (a * es) (r0 + a) disk cache wc
     = (case remap_entries k kOffset table_index es cur index [r0 + a..<r0 + c] disk cache wc of
          Inl e \<Rightarrow> Inl e
        | Inr (d, ca, w) \<Rightarrow> Inr (r0 + c, d, ca, w))"
proof (induction "c - a" arbitrary: a disk cache wc)
  case 0
  then have "a = c" by simp
  then show ?case by (simp add: remap_buffer.simps)
next
  case (Suc x)
  then have ac: "a < c" by simp
  let ?buf = "take (c * es) (drop (r0 * es) disk)"
  let ?step = "remap_entry k kOffset table_index es cur index (entry_at disk es (r0 + a)) 0
                 (r0 + a) disk cache wc"
  have upt: "[r0 + a..<r0 + c] = (r0 + a) # [r0 + Suc a..<r0 + c]"
    using ac by (simp add: upt_conv_Cons)
  have arith: "a * es + es = Suc a * es" "r0 + a + 1 = r0 + Suc a" by simp_all
  have "remap_buffer k kOffset table_index es cur index (c * es) ?buf (a * es) (r0 + a)
        disk cache wc
      = (case remap_entry k kOffset table_index es cur index ?buf (a * es) (r0 + a) disk cache wc of
           Inl e \<Rightarrow> Inl e
         | Inr (b, d, ca, w) \<Rightarrow> remap_buffer k kOffset table_index es cur index (c * es) b
             (a * es + es) (r0 + a + 1) d ca w)"
    by (subst remap_buffer.simps) (simp add: ac es)
  then have unfold: "remap_buffer k kOffset table_index es cur index (c * es) ?buf (a * es) (r0 + a)
        disk cache wc
      = (case remap_entry k kOffset table_index es cur index ?buf (a * es) (r0 + a) disk cache wc of
           Inl e \<Rightarrow> Inl e
         | Inr (b, d, ca, w) \<Rightarrow> remap_buffer k kOffset table_index es cur index (c * es) b
             (Suc a * es) (r0 + Suc a) d ca w)"
    by (simp only: arith)
  show ?case
  proof (cases ?step)
    case (Inl e)
    then show ?thesis
      unfolding unfold upt remap_entry_chunk [OF fit ac Suc.prems(2)] by simp
  next
    case (Inr res)
    obtain b d ca w where res: "res = (b, d, ca, w)" by (cases res)
    have "(r0 + a + 1) * es \<le> (r0 + c) * es"
      using ac by (intro mult_le_mono1) simp
    with Suc.prems(2) have "(r0 + a + 1) * es \<le> length disk" by simp
    from remap_entry_length [OF Inr [unfolded res] fit this]
    have ld: "length d = length disk" .
    have IH: "remap_buffer k kOffset table_index es cur index (c * es)
        (take (c * es) (drop (r0 * es) d)) (Suc a * es) (r0 + Suc a) d ca w
      = (case remap_entries k kOffset table_index es cur index [r0 + Suc a..<r0 + c] d ca w of
          Inl e \<Rightarrow> Inl e
        | Inr (d, ca, w) \<Rightarrow> Inr (r0 + c, d, ca, w))"
      using Suc.hyps(2) ac Suc.prems(2) ld by (intro Suc.hyps(1)) simp_all
    show ?thesis
      unfolding unfold upt remap_entry_chunk [OF fit ac Suc.prems(2)] remap_entries.simps
      by (simp only: Inr res sum.case prod.case IH)
  qed
qed

lemma remap_table_entries:
  assumes es: "0 < es" and m: "0 < m" and fit: "fields_fit k kOffset table_index es"
  shows "r \<le> n \<Longrightarrow> n * es \<le> length disk \<Longrightarrow>
     remap_table k kOffset table_index es n (m * es) cur index disk r (r * es) cache wc
     = Some (remap_entries k kOffset table_index es cur index [r..<n] disk cache wc)"
proof (induction "n - r" arbitrary: r disk cache wc rule: less_induct)
  case less
  show ?case
  proof (cases "r < n")
    case False
    with less.prems have "r = n" by simp
    then show ?thesis by (subst remap_table.simps) simp
  next
    case True
    define c where "c = min m (n - r)"
    have c: "0 < c" "r + c \<le> n" using True m by (simp_all add: c_def)
    have to_read: "min (m * es) (n * es - r * es) = c * es"
      by (simp add: c_def nat_mult_min_left diff_mult_distrib)
    have "(r + c) * es \<le> n * es" using c(2) by (rule mult_le_mono1)
    from this less.prems(2) have len: "(r + c) * es \<le> length disk" by (rule order_trans)
    then have rd: "disk_Read disk (r * es) (c * es) = Inr (take (c * es) (drop (r * es) disk))"
      by (simp add: disk_Read_def add_mult_distrib)
    have buf: "remap_buffer k kOffset table_index es cur index (c * es)
         (take (c * es) (drop (r * es) disk)) 0 r disk cache wc
       = (case remap_entries k kOffset table_index es cur index [r..<r + c] disk cache wc of
            Inl e \<Rightarrow> Inl e
          | Inr (d, ca, w) \<Rightarrow> Inr (r + c, d, ca, w))"
      using remap_buffer_entries [OF es fit, of 0 c r disk cur index cache wc] len by simp
    have split: "[r..<n] = [r..<r + c] @ [r + c..<n]"
      using c(2) by (metis le_add1 upt_add_eq_append le_Suc_ex)
    have unfold: "remap_table k kOffset table_index es n (m * es) cur index disk r (r * es) cache wc
        = (case remap_entries k kOffset table_index es cur index [r..<r + c] disk cache wc of
             Inl e \<Rightarrow> Some (Inl e)
           | Inr (d, ca, w) \<Rightarrow> remap_table k kOffset table_index es n (m * es) cur index d
               (r + c) ((r + c) * es) ca w)"
      by (subst remap_table.simps)
        (simp add: True to_read rd buf add_mult_distrib split: sum.splits)
    show ?thesis
    proof (cases "remap_entries k kOffset table_index es cur index [r..<r + c] disk cache wc")
      case (Inl e)
      then show ?thesis unfolding unfold split remap_entries_append by simp
    next
      case (Inr res)
      obtain d ca w where res: "res = (d, ca, w)" by (cases res)
      have "\<forall>j \<in> set [r..<r + c]. (j + 1) * es \<le> length disk"
      proof
        fix j assume "j \<in> set [r..<r + c]"
        then have "j + 1 \<le> r + c" by simp
        then have "(j + 1) * es \<le> (r + c) * es" by (rule mult_le_mono1)
        with len show "(j + 1) * es \<le> length disk" by simp
      qed
      from remap_entries_length [OF fit Inr [unfolded res] this]
      have "length d = length disk" .
      with less.prems(2) have "n * es \<le> length d" by simp
      with c True have "remap_table k kOffset table_index es n (m * es) cur index d
               (r + c) ((r + c) * es) ca w
          = Some (remap_entries k kOffset table_index es cur index [r + c..<n] d ca w)"
        by (intro less.hyps) simp_all
      then show ?thesis
        unfolding unfold split remap_entries_append by (simp add: Inr res)
    qed
  qed
qed

lemma remap_table_eq:
  assumes "0 < es" and "es \<le> memory_size div 2" and "fields_fit k kOffset table_index es"
    and "n * es \<le> length disk"
  shows "remap_table k kOffset table_index es n (read_buffer_size memory_size es) cur index disk
           0 0 cache wc
     = Some (remap_entries k kOffset table_index es cur index [0..<n] disk cache wc)"
proof -
  have "0 < memory_size div 2 div es"
    using assms(1,2) by (simp add: div_greater_zero_iff)
  from remap_table_entries [OF assms(1) this assms(3) _ assms(4), of 0 cur index cache wc]
  show ?thesis by (simp add: read_buffer_size_def minus_mod_eq_div_mult)
qed

subsection \<open>The second scan in closed form\<close>

lemma take_drop_prefix:
  "a + n \<le> m \<Longrightarrow> m \<le> length xs \<Longrightarrow> take n (drop a (take m xs @ ys)) = take n (drop a xs)"
proof -
  assume a: "a + n \<le> m" and m: "m \<le> length xs"
  have "drop a (take m xs @ ys) = drop a (take m xs) @ ys"
    using a m by simp
  moreover have "n \<le> length (drop a (take m xs))"
    using a m by simp
  ultimately have "take n (drop a (take m xs @ ys)) = take n (drop a (take m xs))"
    by simp
  also have "\<dots> = take n (take (m - a) (drop a xs))"
    by (simp only: drop_take)
  also have "\<dots> = take n (drop a xs)"
    using a by (simp add: min_def)
  finally show ?thesis .
qed

lemma drop_past_segment:
  "length p + length w \<le> a \<Longrightarrow> length p + length w \<le> length xs \<Longrightarrow>
   drop a (p @ w @ drop (length p + length w) xs) = drop a xs"
proof -
  assume a: "length p + length w \<le> a" and l: "length p + length w \<le> length xs"
  obtain x where x: "a = length p + length w + x"
    using a le_Suc_ex by blast
  have "drop a (p @ w @ drop (length p + length w) xs)
      = drop x (drop (length p + length w) xs)"
    unfolding x by simp
  also have "\<dots> = drop a xs"
    unfolding x by (simp add: add.commute)
  finally show ?thesis .
qed

lemma upt_shift: "[wc..<wc + length (j # js)] = wc # [Suc wc..<Suc wc + length js]"
  by (simp add: upt_conv_Cons del: upt_Suc)

lemma emitted_Nil [simp]: "emitted k kOffset table_index es index disk wc [] = []"
  by (simp add: emitted_def)

lemma emitted_Cons:
  "emitted k kOffset table_index es index disk wc (j # js)
   = zero_padded es (new_entry k kOffset table_index index wc (entry_at disk es j))
     # emitted k kOffset table_index es index disk (Suc wc) js"
  unfolding emitted_def upt_shift by simp

lemma length_emitted [simp]:
  "length (emitted k kOffset table_index es index disk wc js) = length js"
  by (simp add: emitted_def)

lemma kept_Cons:
  "kept table_index cur (j # js)
   = (if retained table_index cur j then j # kept table_index cur js
      else kept table_index cur js)"
  by (simp add: kept_def)

lemma remap_entries_below_7:
  assumes "table_index \<noteq> 7" and "k + 1 + k + kOffset \<le> es * 8"
  shows "\<forall>j \<in> set js. j < length cur \<Longrightarrow>
     remap_entries k kOffset table_index es cur index js disk cache wc
     = Inr (disk, cache @ emitted k kOffset table_index es index disk wc (kept table_index cur js),
            wc + length (kept table_index cur js))"
proof (induction js arbitrary: cache wc)
  case Nil
  show ?case by (simp add: kept_def)
next
  case (Cons j js)
  from Cons.prems have j: "j < length cur" and js: "\<forall>j \<in> set js. j < length cur" by simp_all
  show ?case
  proof (cases "cur ! j")
    case True
    with assms j show ?thesis
      by (simp add: remap_entry_eq Cons.IH [OF js] kept_Cons retained_def emitted_Cons)
  next
    case False
    with assms j show ?thesis
      by (simp add: remap_entry_eq Cons.IH [OF js] kept_Cons retained_def)
  qed
qed

lemma remap_entries_error:
  "remap_entries k kOffset table_index es cur index js disk cache wc = Inl err \<Longrightarrow>
     table_index \<noteq> 7 \<and>
     (err = OutOfBounds \<and> (\<exists>j \<in> set js. \<not> j < length cur)
      \<or> err = AssertionFailed \<and> \<not> k + 1 + k + kOffset \<le> es * 8)"
proof (induction js arbitrary: disk cache wc)
  case Nil
  then show ?case by simp
next
  case (Cons j js)
  show ?case
  proof (cases "remap_entry k kOffset table_index es cur index (entry_at disk es j) 0 j disk
                  cache wc")
    case (Inl e)
    with Cons.prems have "e = err" by simp
    with Inl show ?thesis
      by (auto simp add: remap_entry_eq split: if_splits)
  next
    case (Inr res)
    obtain b d ca w where "res = (b, d, ca, w)" by (cases res)
    with Inr Cons.prems
    have "remap_entries k kOffset table_index es cur index js d ca w = Inl err" by simp
    from Cons.IH [OF this] show ?thesis by auto
  qed
qed

lemma entry_at_disk_Write:
  assumes w: "length w = es" and j: "(j + 1) * es \<le> length disk"
    and j': "(j' + 1) * es \<le> length disk"
  shows "entry_at (disk_Write disk (j * es) w) es j' = (if j' = j then w else entry_at disk es j')"
proof -
  from j have jes: "j * es + es \<le> length disk" by simp
  then have jl: "j * es \<le> length disk" by simp
  have lp: "length (take (j * es) disk) = j * es" using jl by simp
  have W: "disk_Write disk (j * es) w = take (j * es) disk @ w @ drop (j * es + es) disk"
    using jes w by (simp add: disk_Write_def)
  show ?thesis
  proof (cases "j' < j")
    case True
    then have "Suc j' \<le> j" by simp
    then have "Suc j' * es \<le> j * es" by (rule mult_le_mono1)
    then have le: "j' * es + es \<le> j * es" by simp
    have "take es (drop (j' * es) (take (j * es) disk @ w @ drop (j * es + es) disk))
        = take es (drop (j' * es) disk)"
      using le jl by (rule take_drop_prefix)
    with True show ?thesis by (simp add: entry_at_def W)
  next
    case False
    show ?thesis
    proof (cases "j' = j")
      case True
      with jes w show ?thesis by (simp add: entry_at_def W)
    next
      case ne: False
      with False have "Suc j \<le> j'" by simp
      then have "Suc j * es \<le> j' * es" by (rule mult_le_mono1)
      then have le: "j * es + es \<le> j' * es" by simp
      have "drop (j' * es) (take (j * es) disk @ w
              @ drop (length (take (j * es) disk) + length w) disk) = drop (j' * es) disk"
        using le jes by (intro drop_past_segment) (simp_all add: lp w)
      then have "drop (j' * es) (take (j * es) disk @ w @ drop (j * es + es) disk)
          = drop (j' * es) disk"
        by (simp only: lp w)
      with ne show ?thesis by (simp add: entry_at_def W)
    qed
  qed
qed

lemma length_rewritten_7:
  assumes "fields_fit k kOffset 7 es" and "length e = es"
  shows "length (rewritten_7 k kOffset es index e) = es"
  using assms by (simp add: rewritten_7_def copy_to_def fields_fit_def)

lemma remap_entry_7_entry:
  "remap_entry k kOffset 7 es cur index (entry_at disk es j) 0 j disk cache wc
   = Inr (copy_to (entry_at disk es j) 0 (ToBytes (new_entry_7 k kOffset index (entry_at disk es j))),
          disk_Write disk (j * es) (rewritten_7 k kOffset es index (entry_at disk es j)),
          cache, wc + 1)"
  by (simp add: remap_entry_7 rewritten_7_def)

lemma remap_entries_7:
  assumes fit: "fields_fit k kOffset 7 es"
  shows "distinct js \<Longrightarrow> \<forall>j \<in> set js. (j + 1) * es \<le> length disk \<Longrightarrow>
     \<exists>d. remap_entries k kOffset 7 es cur index js disk cache wc = Inr (d, cache, wc + length js)
       \<and> length d = length disk
       \<and> (\<forall>j. (j + 1) * es \<le> length disk \<longrightarrow>
            entry_at d es j = (if j \<in> set js
                               then rewritten_7 k kOffset es index (entry_at disk es j)
                               else entry_at disk es j))"
proof (induction js arbitrary: disk wc)
  case Nil
  then show ?case by simp
next
  case (Cons i js)
  let ?w = "rewritten_7 k kOffset es index (entry_at disk es i)"
  let ?d1 = "disk_Write disk (i * es) ?w"
  from Cons.prems have i: "(i + 1) * es \<le> length disk" by simp
  have lw: "length ?w = es"
    using fit length_entry_at [OF i] by (rule length_rewritten_7)
  have ld1: "length ?d1 = length disk"
    using i lw by (intro length_disk_Write) simp
  have ent: "\<And>j. (j + 1) * es \<le> length disk \<Longrightarrow>
      entry_at ?d1 es j = (if j = i then ?w else entry_at disk es j)"
    using lw i by (rule entry_at_disk_Write)
  from Cons.prems have "distinct js" and "\<forall>j \<in> set js. (j + 1) * es \<le> length ?d1"
    by (simp_all add: ld1)
  from Cons.IH [OF this, of "Suc wc"]
  obtain d where d: "remap_entries k kOffset 7 es cur index js ?d1 cache (Suc wc)
      = Inr (d, cache, Suc wc + length js)"
    and ld: "length d = length ?d1"
    and ed: "\<And>j. (j + 1) * es \<le> length ?d1 \<Longrightarrow>
            entry_at d es j = (if j \<in> set js
                               then rewritten_7 k kOffset es index (entry_at ?d1 es j)
                               else entry_at ?d1 es j)"
    by blast
  have "remap_entries k kOffset 7 es cur index (i # js) disk cache wc
      = Inr (d, cache, wc + length (i # js))"
    by (simp add: remap_entry_7_entry d)
  moreover have "length d = length disk" using ld ld1 by simp
  moreover have "\<forall>j. (j + 1) * es \<le> length disk \<longrightarrow>
            entry_at d es j = (if j \<in> set (i # js)
                               then rewritten_7 k kOffset es index (entry_at disk es j)
                               else entry_at disk es j)"
  proof (intro allI impI)
    fix j assume j: "(j + 1) * es \<le> length disk"
    then have "(j + 1) * es \<le> length ?d1" by (simp add: ld1)
    from ed [OF this] ent [OF j] Cons.prems(1)
    show "entry_at d es j = (if j \<in> set (i # js)
                               then rewritten_7 k kOffset es index (entry_at disk es j)
                               else entry_at disk es j)"
      by auto
  qed
  ultimately show ?case by blast
qed

subsection \<open>Writing the sorted entries back\<close>

lemma write_sorted_take:
  assumes "wc * es \<le> length stream"
  shows "i \<le> wc \<Longrightarrow> i * es \<le> length disk \<Longrightarrow>
     take (wc * es) (write_sorted stream es wc disk i)
     = take (i * es) disk @ take ((wc - i) * es) (drop (i * es) stream)"
proof (induction "wc - i" arbitrary: i disk)
  case 0
  then have "i = wc" by simp
  then show ?case using 0 by (simp add: write_sorted.simps)
next
  case (Suc x)
  then have i: "i < wc" by simp
  let ?e = "ReadEntry stream (i * es) es"
  let ?d = "disk_Write disk (i * es) ?e"
  have "Suc i * es \<le> wc * es" using i by (intro mult_le_mono1) simp
  with assms have "i * es + es \<le> length stream" by simp
  then have le: "length ?e = es" by (simp add: ReadEntry_def)
  have d: "?d = take (i * es) disk @ ?e @ drop (i * es + es) disk"
    using Suc.prems(2) le by (simp add: disk_Write_def)
  have ld: "Suc i * es \<le> length ?d"
    using Suc.prems(2) le unfolding d by simp
  have tk: "take (Suc i * es) ?d = take (i * es) disk @ ?e"
    using Suc.prems(2) le unfolding d by simp
  have "take (wc * es) (write_sorted stream es wc disk i)
      = take (wc * es) (write_sorted stream es wc ?d (Suc i))"
    by (subst write_sorted.simps) (simp add: i)
  also have "\<dots> = take (Suc i * es) ?d @ take ((wc - Suc i) * es) (drop (Suc i * es) stream)"
    using Suc.hyps(2) i ld by (intro Suc.hyps(1)) simp_all
  also have "\<dots> = take (i * es) disk @ (?e @ take ((wc - Suc i) * es) (drop (Suc i * es) stream))"
    by (simp only: tk append_assoc)
  also have "?e @ take ((wc - Suc i) * es) (drop (Suc i * es) stream)
      = take ((wc - i) * es) (drop (i * es) stream)"
  proof -
    have "(wc - i) * es = es + (wc - Suc i) * es"
      using i by (simp add: Suc_diff_Suc [symmetric] del: mult_Suc) (metis Suc_diff_Suc mult_Suc)
    moreover have "drop (Suc i * es) stream = drop es (drop (i * es) stream)"
      by (simp add: add.commute)
    ultimately show ?thesis
      by (simp only: ReadEntry_def take_add)
  qed
  finally show ?case .
qed

lemma length_disk_Truncate [simp]: "length (disk_Truncate disk n) = n"
  by (simp add: disk_Truncate_def)

lemma write_sorted_truncate:
  assumes "length stream = wc * es"
  shows "disk_Truncate (write_sorted stream es wc disk 0) (wc * es) = stream"
proof -
  have "take (wc * es) (write_sorted stream es wc disk 0) = stream"
    using write_sorted_take [of wc es stream 0 disk] assms by simp
  moreover from this have "wc * es \<le> length (write_sorted stream es wc disk 0)"
    by (metis assms length_take min.cobounded1 min.commute)
  ultimately show ?thesis by (simp add: disk_Truncate_def)
qed

subsection \<open>Compaction of table 1\<close>

lemma entries_le: "a \<le> b \<Longrightarrow> b * es \<le> l \<Longrightarrow> a * es \<le> (l::nat)"
  by (meson mult_le_mono1 order_trans)

lemma compact_table_1_eq:
  assumes len: "n * es \<le> length disk0" and bf: "n \<le> length bf"
  shows "w \<le> r \<Longrightarrow> r \<le> n \<Longrightarrow> length disk = length disk0 \<Longrightarrow>
     (\<And>j. r \<le> j \<Longrightarrow> j < n \<Longrightarrow> entry_at disk es j = entry_at disk0 es j) \<Longrightarrow>
     \<exists>d. compact_table_1 es n bf disk r (r * es) w (w * es)
           = Inr (d, w + length (filter (\<lambda>j. bf ! j) [r..<n]),
                  (w + length (filter (\<lambda>j. bf ! j) [r..<n])) * es)
       \<and> take ((w + length (filter (\<lambda>j. bf ! j) [r..<n])) * es) d
           = take (w * es) disk @ concat (map (entry_at disk0 es) (filter (\<lambda>j. bf ! j) [r..<n]))
       \<and> length d = length disk0"
proof (induction "n - r" arbitrary: r w disk)
  case 0
  then have "r = n" by simp
  with 0 show ?case by (simp add: compact_table_1.simps)
next
  case (Suc x)
  then have r: "r < n" by simp
  with bf have rb: "r < length bf" by simp
  have upt: "[r..<n] = r # [Suc r..<n]" using r by (simp add: upt_conv_Cons)
  have "Suc r \<le> n" using r by simp
  from entries_le [OF this len] have rl': "Suc r * es \<le> length disk"
    by (simp only: Suc.prems(3))
  then have rl: "r * es + es \<le> length disk" by simp
  show ?case
  proof (cases "bf ! r")
    case False
    have "compact_table_1 es n bf disk r (r * es) w (w * es)
        = compact_table_1 es n bf disk (Suc r) (r * es + es) w (w * es)"
      by (subst compact_table_1.simps) (simp add: r rb False)
    then have "compact_table_1 es n bf disk r (r * es) w (w * es)
        = compact_table_1 es n bf disk (Suc r) (Suc r * es) w (w * es)"
      by (simp add: add.commute)
    moreover have "\<exists>d. compact_table_1 es n bf disk (Suc r) (Suc r * es) w (w * es)
           = Inr (d, w + length (filter (\<lambda>j. bf ! j) [Suc r..<n]),
                  (w + length (filter (\<lambda>j. bf ! j) [Suc r..<n])) * es)
       \<and> take ((w + length (filter (\<lambda>j. bf ! j) [Suc r..<n])) * es) d
           = take (w * es) disk
             @ concat (map (entry_at disk0 es) (filter (\<lambda>j. bf ! j) [Suc r..<n]))
       \<and> length d = length disk0"
      using Suc.hyps(2) Suc.prems r by (intro Suc.hyps(1)) simp_all
    ultimately show ?thesis using False by (simp add: upt)
  next
    case True
    let ?entry = "entry_at disk0 es r"
    let ?d1 = "if w * es \<noteq> r * es then disk_Write disk (w * es) ?entry else disk"
    have e: "entry_at disk es r = ?entry" using r by (intro Suc.prems(4)) simp_all
    have le: "length ?entry = es"
      using rl Suc.prems(3) by (simp add: entry_at_def)
    have "disk_Read disk (r * es) es = Inr (entry_at disk es r)"
      using rl by (simp add: disk_Read_def entry_at_def)
    then have rd: "disk_Read disk (r * es) es = Inr ?entry"
      by (simp only: e)
    have "compact_table_1 es n bf disk r (r * es) w (w * es)
        = compact_table_1 es n bf ?d1 (Suc r) (r * es + es) (Suc w) (w * es + es)"
      by (subst compact_table_1.simps) (simp add: r rb True rd)
    then have step: "compact_table_1 es n bf disk r (r * es) w (w * es)
        = compact_table_1 es n bf ?d1 (Suc r) (Suc r * es) (Suc w) (Suc w * es)"
      by (simp add: add.commute)
    have wl: "(w + 1) * es \<le> length disk"
    proof -
      have "w + 1 \<le> Suc r" using Suc.prems(1) by simp
      from entries_le [OF this rl'] show ?thesis .
    qed
    have l1: "length ?d1 = length disk0"
      using wl le Suc.prems(3) by (simp add: length_disk_Write)
    have tk: "take (Suc w * es) ?d1 = take (w * es) disk @ ?entry"
    proof (cases "w * es \<noteq> r * es")
      case True
      have "disk_Write disk (w * es) ?entry
          = take (w * es) disk @ ?entry @ drop (w * es + es) disk"
        using wl le by (simp add: disk_Write_def)
      with True wl le show ?thesis by simp
    next
      case False
      then have eq: "w * es = r * es" by simp
      have "Suc w * es = w * es + es" by simp
      then have "take (Suc w * es) disk = take (w * es) disk @ take es (drop (w * es) disk)"
        by (simp only: take_add)
      with False e show ?thesis by (simp add: entry_at_def eq)
    qed
    have ents: "\<And>j. Suc r \<le> j \<Longrightarrow> j < n \<Longrightarrow> entry_at ?d1 es j = entry_at disk0 es j"
    proof -
      fix j assume j: "Suc r \<le> j" "j < n"
      then have old: "entry_at disk es j = entry_at disk0 es j"
        by (intro Suc.prems(4)) simp_all
      show "entry_at ?d1 es j = entry_at disk0 es j"
      proof (cases "w * es \<noteq> r * es")
        case False
        with old show ?thesis by simp
      next
        case True
        then have "w \<noteq> r" by auto
        with Suc.prems(1) j have ne: "j \<noteq> w" by simp
        have "j + 1 \<le> n" using j by simp
        from entries_le [OF this len] have "(j + 1) * es \<le> length disk"
          by (simp only: Suc.prems(3))
        from entry_at_disk_Write [OF le wl this] ne old True show ?thesis by simp
      qed
    qed
    have "\<exists>d. compact_table_1 es n bf ?d1 (Suc r) (Suc r * es) (Suc w) (Suc w * es)
           = Inr (d, Suc w + length (filter (\<lambda>j. bf ! j) [Suc r..<n]),
                  (Suc w + length (filter (\<lambda>j. bf ! j) [Suc r..<n])) * es)
       \<and> take ((Suc w + length (filter (\<lambda>j. bf ! j) [Suc r..<n])) * es) d
           = take (Suc w * es) ?d1
             @ concat (map (entry_at disk0 es) (filter (\<lambda>j. bf ! j) [Suc r..<n]))
       \<and> length d = length disk0"
      using Suc.hyps(2) Suc.prems(1) r l1 ents by (intro Suc.hyps(1)) simp_all
    then show ?thesis
      unfolding step tk upt using True by simp
  qed
qed

subsection \<open>One iteration of the loop over the tables\<close>

lemma length_next_liveness [simp]:
  "length (next_liveness k kOffset table_index es cur disk n n') = n'"
  by (simp add: next_liveness_def)

lemma nth_next_liveness:
  "e < n' \<Longrightarrow> next_liveness k kOffset table_index es cur disk n n' ! e
     \<longleftrightarrow> referenced k kOffset table_index es cur disk [0..<n] e"
  by (simp add: next_liveness_def)

lemma scan_table_next:
  assumes "0 < es" and "es \<le> memory_size div 2" and "fields_fit k kOffset table_index es"
    and "n * es \<le> length disk"
  shows "scan_table k kOffset table_index es n (read_buffer_size memory_size es) cur disk 0 0
           (replicate n' False)
     = Some (if refs_in_bounds k kOffset table_index es cur disk n' [0..<n]
             then Inr (next_liveness k kOffset table_index es cur disk n n')
             else Inl OutOfBounds)"
proof -
  have "map (\<lambda>e. replicate n' False ! e \<or> referenced k kOffset table_index es cur disk [0..<n] e)
          [0..<n']
      = map (referenced k kOffset table_index es cur disk [0..<n]) [0..<n']"
    by (intro map_cong refl) simp
  then show ?thesis
    by (simp add: scan_table_eq [OF assms] scan_entries_eq next_liveness_def)
qed

lemma backpropagate_table_eq:
  assumes es: "0 < GetMaxEntrySize ext k table_index"
    and mem: "GetMaxEntrySize ext k table_index \<le> memory_size div 2"
    and fit: "fields_fit k (kOffsetSize ext) table_index (GetMaxEntrySize ext k table_index)"
    and len: "table_sizes table_index * GetMaxEntrySize ext k table_index
              \<le> length (tmp_1_disks st table_index)"
    and refs: "refs_in_bounds k (kOffsetSize ext) table_index (GetMaxEntrySize ext k table_index)
                 (current_bitfield st) (tmp_1_disks st table_index)
                 (table_sizes (table_index - 1)) [0..<table_sizes table_index]"
  shows "backpropagate_table ext table_sizes k memory_size num_buckets log_num_buckets
           table_index st
     = (case remap_entries k (kOffsetSize ext) table_index (GetMaxEntrySize ext k table_index)
               (current_bitfield st)
               (next_liveness k (kOffsetSize ext) table_index (GetMaxEntrySize ext k table_index)
                  (current_bitfield st) (tmp_1_disks st table_index) (table_sizes table_index)
                  (table_sizes (table_index - 1)))
               [0..<table_sizes table_index] (tmp_1_disks st table_index) [] 0 of
          Inl e \<Rightarrow> Some (Inl e)
        | Inr scanned \<Rightarrow>
            Some (Inr (finish_table ext k
              (memory_size - read_buffer_size memory_size (GetMaxEntrySize ext k table_index))
              num_buckets log_num_buckets table_index (GetMaxEntrySize ext k table_index) st
              (next_liveness k (kOffsetSize ext) table_index (GetMaxEntrySize ext k table_index)
                  (current_bitfield st) (tmp_1_disks st table_index) (table_sizes table_index)
                  (table_sizes (table_index - 1)))
              scanned)))"
  using es refs
  by (simp add: backpropagate_table_def Let_def scan_table_next [OF es mem fit len]
      remap_table_eq [OF es mem fit len] split: sum.splits)

subsection \<open>The liveness sets of a run\<close>

declare liveness.simps [simp del]

lemma liveness_7 [simp]: "liveness ext disks table_sizes k 7 = []"
  by (simp add: liveness.simps)

lemma liveness_below:
  "t < 7 \<Longrightarrow> liveness ext disks table_sizes k t
     = next_liveness k (kOffsetSize ext) (Suc t) (GetMaxEntrySize ext k (Suc t))
         (liveness ext disks table_sizes k (Suc t)) (disks (Suc t)) (table_sizes (Suc t))
         (table_sizes t)"
  by (subst liveness.simps) simp

lemma length_liveness: "t < 7 \<Longrightarrow> length (liveness ext disks table_sizes k t) = table_sizes t"
  by (simp add: liveness_below)

lemma run_ok_refs:
  assumes "run_ok ext disks table_sizes k memory_size" and "2 \<le> t" and "t \<le> 7"
  shows "refs_in_bounds k (kOffsetSize ext) t (GetMaxEntrySize ext k t)
           (liveness ext disks table_sizes k t) (disks t) (table_sizes (t - 1))
           [0..<table_sizes t]"
  using assms
  by (auto simp add: run_ok_def references_ok_def refs_in_bounds_def length_liveness)

lemma run_ok_table:
  assumes "run_ok ext disks table_sizes k memory_size" and "2 \<le> t" and "t \<le> 7"
  shows "0 < GetMaxEntrySize ext k t" and "GetMaxEntrySize ext k t \<le> memory_size div 2"
    and "fields_fit k (kOffsetSize ext) t (GetMaxEntrySize ext k t)"
    and "table_sizes t * GetMaxEntrySize ext k t \<le> length (disks t)"
  using assms by (simp_all add: run_ok_def tables_ok_def memory_ok_def)

lemma run_ok_width:
  assumes "run_ok ext disks table_sizes k memory_size" and "2 \<le> t" and "t \<le> 6"
  shows "k + 1 + k + kOffsetSize ext \<le> GetMaxEntrySize ext k t * 8"
  using assms by (simp add: run_ok_def widths_ok_def)

subsection \<open>The whole run\<close>

lemma liveness_pred:
  assumes "2 \<le> t" and "t \<le> 7"
  shows "next_liveness k (kOffsetSize ext) t (GetMaxEntrySize ext k t)
           (liveness ext disks table_sizes k t) (disks t) (table_sizes t) (table_sizes (t - 1))
         = liveness ext disks table_sizes k (t - 1)"
  using assms liveness_below [of "t - 1" ext disks table_sizes k] by simp

lemma backpropagate_table_step:
  assumes ok: "run_ok ext disks table_sizes k memory_size" and t: "2 \<le> t" "t \<le> 7"
    and cur: "current_bitfield st = liveness ext disks table_sizes k t"
    and d: "tmp_1_disks st t = disks t"
  shows "backpropagate_table ext table_sizes k memory_size num_buckets log_num_buckets t st
     = Some (Inr (st\<lparr>tmp_1_disks := (tmp_1_disks st)
                      (t := phase2_disks ext disks table_sizes k memory_size num_buckets
                              log_num_buckets t),
                    new_table_sizes :=
                      (if t = 7 then new_table_sizes st
                       else (new_table_sizes st)[t := length (survivors ext disks table_sizes k t)]),
                    current_bitfield := liveness ext disks table_sizes k (t - 1)\<rparr>))"
proof -
  let ?es = "GetMaxEntrySize ext k t"
  let ?n = "table_sizes t"
  note tab = run_ok_table [OF ok t]
  have refs: "refs_in_bounds k (kOffsetSize ext) t ?es (current_bitfield st) (tmp_1_disks st t)
      (table_sizes (t - 1)) [0..<?n]"
    unfolding cur d by (rule run_ok_refs [OF ok t])
  have len: "?n * ?es \<le> length (tmp_1_disks st t)"
    unfolding d by (rule tab(4))
  note eq = backpropagate_table_eq [OF tab(1) tab(2) tab(3) len refs,
      unfolded cur d liveness_pred [OF t]]
  show ?thesis
  proof (cases "t = 7")
    case True
    have "\<forall>j \<in> set [0..<?n]. (j + 1) * ?es \<le> length (disks t)"
    proof
      fix j assume "j \<in> set [0..<?n]"
      then have "j + 1 \<le> ?n" by simp
      from entries_le [OF this tab(4)] show "(j + 1) * ?es \<le> length (disks t)" .
    qed
    with remap_entries_7 [of k "kOffsetSize ext" ?es "[0..<?n]" "disks t"
        "liveness ext disks table_sizes k t" "liveness ext disks table_sizes k (t - 1)" "[]" 0]
      tab(3) True
    obtain dd where "remap_entries k (kOffsetSize ext) 7 ?es (liveness ext disks table_sizes k t)
               (liveness ext disks table_sizes k (t - 1)) [0..<?n] (disks t) [] 0
        = Inr (dd, [], ?n)"
      by auto
    with True show ?thesis
      unfolding eq
      by (simp add: finish_table_def phase2_disks_def rewritten_table_7_def)
  next
    case False
    with t have t6: "t \<le> 6" by simp
    have "\<forall>j \<in> set [0..<?n]. j < length (liveness ext disks table_sizes k t)"
      using t6 by (simp add: length_liveness)
    from remap_entries_below_7 [OF False run_ok_width [OF ok t(1) t6] this]
    show ?thesis
      unfolding eq using False t t6
      by (simp add: finish_table_def phase2_disks_def sorted_table_def survivors_def Let_def)
  qed
qed

lemma phase2_state_eqI:
  "tmp_1_disks a = tmp_1_disks b \<Longrightarrow> new_table_sizes a = new_table_sizes b \<Longrightarrow>
   current_bitfield a = current_bitfield b \<Longrightarrow> a = (b::phase2_state)"
  by simp

lemma retained_1: "retained 1 cur = (\<lambda>j. cur ! j)"
  by (intro ext) (simp add: retained_def)

lemma retained_7: "retained 7 cur = (\<lambda>j. True)"
  by (intro ext) (simp add: retained_def)

lemma backpropagate_eq:
  assumes ok: "run_ok ext disks table_sizes k memory_size"
  shows "ti \<le> 7 \<Longrightarrow> current_bitfield st = liveness ext disks table_sizes k ti \<Longrightarrow>
     \<forall>t \<le> ti. tmp_1_disks st t = disks t \<Longrightarrow> length (new_table_sizes st) = 8 \<Longrightarrow>
     backpropagate ext table_sizes k memory_size num_buckets log_num_buckets ti st
     = Some (Inr \<lparr>tmp_1_disks =
                     (\<lambda>t. if 2 \<le> t \<and> t \<le> ti
                          then phase2_disks ext disks table_sizes k memory_size num_buckets
                                 log_num_buckets t
                          else tmp_1_disks st t),
                   new_table_sizes =
                     map (\<lambda>t. if 2 \<le> t \<and> t \<le> ti \<and> t \<noteq> 7
                               then length (survivors ext disks table_sizes k t)
                               else new_table_sizes st ! t) [0..<8],
                   current_bitfield = liveness ext disks table_sizes k (min ti 1)\<rparr>)"
proof (induction ti arbitrary: st)
  case 0
  have nts: "map (\<lambda>t. new_table_sizes st ! t) [0..<8] = new_table_sizes st"
    using map_nth [of "new_table_sizes st"] 0(4) by simp
  have "map (\<lambda>t. if 2 \<le> t \<and> t \<le> 0 \<and> t \<noteq> 7
                               then length (survivors ext disks table_sizes k t)
                               else new_table_sizes st ! t) [0..<8]
      = map (\<lambda>t. new_table_sizes st ! t) [0..<8]"
    by (intro map_cong refl) auto
  moreover have "(\<lambda>t. if 2 \<le> t \<and> t \<le> 0
                          then phase2_disks ext disks table_sizes k memory_size num_buckets
                                 log_num_buckets t
                          else tmp_1_disks st t) = tmp_1_disks st"
    by (intro ext) auto
  ultimately have "st = \<lparr>tmp_1_disks =
                     (\<lambda>t. if 2 \<le> t \<and> t \<le> 0
                          then phase2_disks ext disks table_sizes k memory_size num_buckets
                                 log_num_buckets t
                          else tmp_1_disks st t),
                   new_table_sizes =
                     map (\<lambda>t. if 2 \<le> t \<and> t \<le> 0 \<and> t \<noteq> 7
                               then length (survivors ext disks table_sizes k t)
                               else new_table_sizes st ! t) [0..<8],
                   current_bitfield = liveness ext disks table_sizes k (min 0 1)\<rparr>"
    using 0(2) by (intro phase2_state_eqI) (simp_all add: nts)
  then show ?case
    by (subst backpropagate.simps) simp
next
  case (Suc ti)
  show ?case
  proof (cases "ti = 0")
    case True
    have nts: "map (\<lambda>t. new_table_sizes st ! t) [0..<8] = new_table_sizes st"
      using map_nth [of "new_table_sizes st"] Suc.prems(4) by simp
    have "map (\<lambda>t. if 2 \<le> t \<and> t \<le> Suc 0 \<and> t \<noteq> 7
                               then length (survivors ext disks table_sizes k t)
                               else new_table_sizes st ! t) [0..<8]
        = map (\<lambda>t. new_table_sizes st ! t) [0..<8]"
      by (intro map_cong refl) auto
    moreover have "(\<lambda>t. if 2 \<le> t \<and> t \<le> Suc 0
                          then phase2_disks ext disks table_sizes k memory_size num_buckets
                                 log_num_buckets t
                          else tmp_1_disks st t) = tmp_1_disks st"
      by (intro ext) auto
    ultimately have "st = \<lparr>tmp_1_disks =
                     (\<lambda>t. if 2 \<le> t \<and> t \<le> Suc 0
                          then phase2_disks ext disks table_sizes k memory_size num_buckets
                                 log_num_buckets t
                          else tmp_1_disks st t),
                   new_table_sizes =
                     map (\<lambda>t. if 2 \<le> t \<and> t \<le> Suc 0 \<and> t \<noteq> 7
                               then length (survivors ext disks table_sizes k t)
                               else new_table_sizes st ! t) [0..<8],
                   current_bitfield = liveness ext disks table_sizes k (min (Suc 0) 1)\<rparr>"
      using True Suc.prems(2) by (intro phase2_state_eqI) (simp_all add: nts)
    then show ?thesis
      unfolding True by (subst backpropagate.simps) simp
  next
    case False
    then have t: "2 \<le> Suc ti" by simp
    let ?pd = "phase2_disks ext disks table_sizes k memory_size num_buckets log_num_buckets"
    let ?sv = "\<lambda>t. length (survivors ext disks table_sizes k t)"
    let ?st1 = "st\<lparr>tmp_1_disks := (tmp_1_disks st)(Suc ti := ?pd (Suc ti)),
                    new_table_sizes :=
                      (if Suc ti = 7 then new_table_sizes st
                       else (new_table_sizes st)[Suc ti := ?sv (Suc ti)]),
                    current_bitfield := liveness ext disks table_sizes k (Suc ti - 1)\<rparr>"
    have d: "tmp_1_disks st (Suc ti) = disks (Suc ti)" using Suc.prems(3) by simp
    have step: "backpropagate_table ext table_sizes k memory_size num_buckets log_num_buckets
          (Suc ti) st = Some (Inr ?st1)"
      by (rule backpropagate_table_step [OF ok t Suc.prems(1) Suc.prems(2) d])
    have rest: "backpropagate ext table_sizes k memory_size num_buckets log_num_buckets ti ?st1
        = Some (Inr \<lparr>tmp_1_disks =
                     (\<lambda>t. if 2 \<le> t \<and> t \<le> ti then ?pd t else tmp_1_disks ?st1 t),
                   new_table_sizes =
                     map (\<lambda>t. if 2 \<le> t \<and> t \<le> ti \<and> t \<noteq> 7 then ?sv t
                               else new_table_sizes ?st1 ! t) [0..<8],
                   current_bitfield = liveness ext disks table_sizes k (min ti 1)\<rparr>)"
      using Suc.prems by (intro Suc.IH) simp_all
    have disks_eq: "(\<lambda>t. if 2 \<le> t \<and> t \<le> ti then ?pd t else tmp_1_disks ?st1 t)
        = (\<lambda>t. if 2 \<le> t \<and> t \<le> Suc ti then ?pd t else tmp_1_disks st t)"
      using t by (intro ext) auto
    have sizes_eq: "map (\<lambda>t. if 2 \<le> t \<and> t \<le> ti \<and> t \<noteq> 7 then ?sv t
                               else new_table_sizes ?st1 ! t) [0..<8]
        = map (\<lambda>t. if 2 \<le> t \<and> t \<le> Suc ti \<and> t \<noteq> 7 then ?sv t
                               else new_table_sizes st ! t) [0..<8]"
    proof (intro map_cong refl)
      fix x assume "x \<in> set [0..<8]"
      then have x: "x < 8" by simp
      show "(if 2 \<le> x \<and> x \<le> ti \<and> x \<noteq> 7 then ?sv x else new_table_sizes ?st1 ! x)
          = (if 2 \<le> x \<and> x \<le> Suc ti \<and> x \<noteq> 7 then ?sv x else new_table_sizes st ! x)"
        using t x Suc.prems(4) by (cases "x = Suc ti") (auto simp add: nth_list_update)
    qed
    have min_eq: "min ti 1 = min (Suc ti) 1" using False by simp
    have "backpropagate ext table_sizes k memory_size num_buckets log_num_buckets (Suc ti) st
        = backpropagate ext table_sizes k memory_size num_buckets log_num_buckets ti ?st1"
      by (subst backpropagate.simps) (simp add: step t False)
    then show ?thesis
      by (simp only: rest disks_eq sizes_eq min_eq)
  qed
qed

lemma upt_8: "[0..<8] = [0, 1, 2, 3, 4, 5, 6, 7]"
  by (simp add: upt_rec)

lemma survivors_7: "survivors ext disks table_sizes k 7 = [0..<table_sizes 7]"
  by (simp add: survivors_def kept_def retained_7)

lemma survivors_1:
  "survivors ext disks table_sizes k 1
   = filter (\<lambda>j. liveness ext disks table_sizes k 1 ! j) [0..<table_sizes 1]"
  by (simp only: survivors_def kept_def retained_1)

lemma length_kept_le: "length (kept table_index cur [0..<n]) \<le> n"
  using length_filter_le [of "retained table_index cur" "[0..<n]"] by (simp add: kept_def)

lemma RunPhase2_eq:
  assumes ok: "run_ok ext disks table_sizes k memory_size"
  shows "RunPhase2 ext disks table_sizes k memory_size num_buckets log_num_buckets
     = Some (Inr (phase2_sizes ext disks table_sizes k,
                  phase2_disks ext disks table_sizes k memory_size num_buckets log_num_buckets))"
proof -
  let ?pd = "phase2_disks ext disks table_sizes k memory_size num_buckets log_num_buckets"
  let ?sv = "\<lambda>t. length (survivors ext disks table_sizes k t)"
  let ?st0 = "\<lparr>tmp_1_disks = disks, new_table_sizes = (replicate 8 0)[7 := table_sizes 7],
               current_bitfield = []\<rparr>"
  let ?es = "GetMaxEntrySize ext k 1"
  let ?L = "liveness ext disks table_sizes k 1"
  have loop: "backpropagate ext table_sizes k memory_size num_buckets log_num_buckets 7 ?st0
      = Some (Inr \<lparr>tmp_1_disks = (\<lambda>t. if 2 \<le> t \<and> t \<le> 7 then ?pd t else disks t),
                    new_table_sizes =
                      map (\<lambda>t. if 2 \<le> t \<and> t \<le> 7 \<and> t \<noteq> 7 then ?sv t
                                else (replicate 8 0)[7 := table_sizes 7] ! t) [0..<8],
                    current_bitfield = ?L\<rparr>)"
  proof -
    have "backpropagate ext table_sizes k memory_size num_buckets log_num_buckets 7 ?st0
      = Some (Inr \<lparr>tmp_1_disks = (\<lambda>t. if 2 \<le> t \<and> t \<le> 7 then ?pd t else tmp_1_disks ?st0 t),
                    new_table_sizes =
                      map (\<lambda>t. if 2 \<le> t \<and> t \<le> 7 \<and> t \<noteq> 7 then ?sv t
                                else new_table_sizes ?st0 ! t) [0..<8],
                    current_bitfield = liveness ext disks table_sizes k (min 7 1)\<rparr>)"
      by (rule backpropagate_eq [OF ok]) simp_all
    then show ?thesis by (simp cong: if_cong)
  qed
  have len: "table_sizes 1 * ?es \<le> length (disks 1)"
    using ok by (simp add: run_ok_def tables_ok_def)
  have lL: "table_sizes 1 \<le> length ?L" by (simp add: length_liveness)
  have "\<exists>d. compact_table_1 ?es (table_sizes 1) ?L (disks 1) 0 (0 * ?es) 0 (0 * ?es)
           = Inr (d, 0 + length (filter (\<lambda>j. ?L ! j) [0..<table_sizes 1]),
                  (0 + length (filter (\<lambda>j. ?L ! j) [0..<table_sizes 1])) * ?es)
       \<and> take ((0 + length (filter (\<lambda>j. ?L ! j) [0..<table_sizes 1])) * ?es) d
           = take (0 * ?es) (disks 1)
             @ concat (map (entry_at (disks 1) ?es) (filter (\<lambda>j. ?L ! j) [0..<table_sizes 1]))
       \<and> length d = length (disks 1)"
    by (rule compact_table_1_eq [OF len lL]) simp_all
  then obtain d where c: "compact_table_1 ?es (table_sizes 1) ?L (disks 1) 0 0 0 0
        = Inr (d, ?sv 1, ?sv 1 * ?es)"
    and tk: "take (?sv 1 * ?es) d = compacted_table_1 ext disks table_sizes k"
    and ld: "length d = length (disks 1)"
    unfolding survivors_1 [symmetric] compacted_table_1_def [symmetric]
    by (auto simp only: mult_0 add_0 take_0 append_Nil)
  have "?sv 1 \<le> table_sizes 1"
    unfolding survivors_def by (rule length_kept_le)
  from entries_le [OF this len] ld have "?sv 1 * ?es \<le> length d" by simp
  then have "?sv 1 * ?es - length d = 0" by simp
  then have tr: "disk_Truncate d (?sv 1 * ?es) = compacted_table_1 ext disks table_sizes k"
    by (simp only: disk_Truncate_def tk replicate_0 append_Nil2)
  have sizes: "(map (\<lambda>t. if 2 \<le> t \<and> t \<le> 7 \<and> t \<noteq> 7 then ?sv t
                                else (replicate 8 0)[7 := table_sizes 7] ! t) [0..<8])
                 [1 := ?sv 1]
      = phase2_sizes ext disks table_sizes k"
    by (simp add: phase2_sizes_def upt_8 survivors_7)
  have disks: "(\<lambda>t. if 2 \<le> t \<and> t \<le> 7 then ?pd t else disks t)
                 (1 := compacted_table_1 ext disks table_sizes k) = ?pd"
    by (intro ext) (auto simp add: phase2_disks_def)
  show ?thesis
    by (simp add: RunPhase2_def loop c tr sizes disks del: One_nat_def)
qed

subsection \<open>The assertion of line 218\<close>

lemma scan_entry_error:
  "scan_entry k kOffset table_index cur e j nb = Inl err \<Longrightarrow> err = OutOfBounds"
  by (simp add: scan_entry_eq mark_used_eq split: if_splits)

lemma scan_buffer_error:
  "scan_buffer k kOffset table_index es cur buf to_read i r nb = Inl err \<Longrightarrow> err = OutOfBounds"
proof (induction k kOffset table_index es cur buf to_read i r nb rule: scan_buffer.induct)
  case (1 k kOffset table_index es cur buf to_read i r nb)
  show ?case
  proof (cases "i < to_read \<and> 0 < es")
    case False
    with "1.prems" show ?thesis by (subst (asm) scan_buffer.simps) simp
  next
    case True
    show ?thesis
    proof (cases "scan_entry k kOffset table_index cur (drop i buf) r nb")
      case (Inl e)
      with "1.prems" True have "e = err" by (subst (asm) scan_buffer.simps) simp
      with Inl show ?thesis by (simp add: scan_entry_error)
    next
      case (Inr b)
      with "1.prems" True
      have "scan_buffer k kOffset table_index es cur buf to_read (i + es) (r + 1) b = Inl err"
        by (subst (asm) scan_buffer.simps) simp
      from "1.IH" [OF True Inr this] show ?thesis .
    qed
  qed
qed

lemma scan_table_error:
  assumes "scan_table k kOffset table_index es n rbs cur disk r rc nb = Some y"
  shows "y \<noteq> Inl AssertionFailed"
proof (rule scan_table.raw_induct
    [where P = "\<lambda>k kOffset table_index es n rbs cur disk r rc nb y. y \<noteq> Inl AssertionFailed",
      OF _ assms], goal_cases)
  case (1 f k kOffset table_index es n rbs cur disk r rc nb y)
  from 1(2) show ?case
    by (auto simp add: Let_def disk_Read_def split: if_splits sum.splits
        dest: scan_buffer_error 1(1))
qed

lemma remap_entry_error:
  assumes "remap_entry k kOffset table_index es cur index buf i r disk cache wc = Inl err"
  shows "table_index \<noteq> 7 \<and> (err = OutOfBounds \<or> err = AssertionFailed
           \<and> \<not> k + 1 + k + kOffset \<le> es * 8)"
  using assms by (simp add: remap_entry_eq split: if_splits)

lemma remap_buffer_error:
  "remap_buffer k kOffset table_index es cur index to_read buf i r disk cache wc = Inl err \<Longrightarrow>
   table_index \<noteq> 7 \<and> (err = OutOfBounds \<or> err = AssertionFailed
           \<and> \<not> k + 1 + k + kOffset \<le> es * 8)"
proof (induction k kOffset table_index es cur index to_read buf i r disk cache wc
    rule: remap_buffer.induct)
  case (1 k kOffset table_index es cur index to_read buf i r disk cache wc)
  show ?case
  proof (cases "i < to_read \<and> 0 < es")
    case False
    with "1.prems" show ?thesis by (subst (asm) remap_buffer.simps) simp
  next
    case True
    show ?thesis
    proof (cases "remap_entry k kOffset table_index es cur index buf i r disk cache wc")
      case (Inl e)
      with "1.prems" True have "e = err" by (subst (asm) remap_buffer.simps) simp
      with Inl remap_entry_error [of k kOffset table_index es cur index buf i r disk cache wc err]
      show ?thesis by blast
    next
      case (Inr res)
      obtain b d ca w where res: "res = (b, d, ca, w)" by (cases res)
      with "1.prems" True Inr
      have "remap_buffer k kOffset table_index es cur index to_read b (i + es) (r + 1) d ca w
          = Inl err"
        by (subst (asm) remap_buffer.simps) simp
      from "1.IH" [OF True Inr [unfolded res] refl refl refl this] show ?thesis .
    qed
  qed
qed

lemma remap_table_error:
  assumes "remap_table k kOffset table_index es n rbs cur index disk r rc cache wc = Some y"
  shows "y = Inl AssertionFailed \<longrightarrow> table_index \<noteq> 7 \<and> \<not> k + 1 + k + kOffset \<le> es * 8"
proof (rule remap_table.raw_induct
    [where P = "\<lambda>k kOffset table_index es n rbs cur index disk r rc cache wc y.
       y = Inl AssertionFailed \<longrightarrow> table_index \<noteq> 7 \<and> \<not> k + 1 + k + kOffset \<le> es * 8",
      OF _ assms], goal_cases)
  case (1 f k kOffset table_index es n rbs cur index disk r rc cache wc y)
  show ?case
  proof (cases "r < n")
    case False
    with 1(2) show ?thesis by auto
  next
    case True
    let ?to_read = "min rbs (n * es - rc)"
    show ?thesis
    proof (cases "disk_Read disk rc ?to_read")
      case (Inl e)
      with 1(2) True show ?thesis by (auto simp add: Let_def disk_Read_def split: if_splits)
    next
      case rd: (Inr buf)
      show ?thesis
      proof (cases "remap_buffer k kOffset table_index es cur index ?to_read buf 0 r disk cache wc")
        case (Inl e)
        with 1(2) True rd have "y = Inl e" by (simp add: Let_def)
        with remap_buffer_error [OF Inl] show ?thesis by auto
      next
        case (Inr res)
        obtain r' d ca w where res: "res = (r', d, ca, w)" by (cases res)
        with 1(2) True rd Inr
        have "f k kOffset table_index es n rbs cur index d r' (rc + ?to_read) ca w = Some y"
          by (simp add: Let_def)
        from 1(1) [OF this] show ?thesis .
      qed
    qed
  qed
qed

lemma backpropagate_table_error:
  assumes "backpropagate_table ext table_sizes k memory_size num_buckets log_num_buckets
            table_index st = Some (Inl AssertionFailed)"
  shows "table_index \<noteq> 7
     \<and> \<not> k + 1 + k + kOffsetSize ext \<le> GetMaxEntrySize ext k table_index * 8"
  using assms
  by (auto simp add: backpropagate_table_def Let_def
      split: if_splits option.splits sum.splits
      dest: scan_table_error remap_table_error)

lemma backpropagate_error:
  "backpropagate ext table_sizes k memory_size num_buckets log_num_buckets table_index st
     = Some (Inl AssertionFailed) \<Longrightarrow>
   \<exists>t. 2 \<le> t \<and> t \<le> table_index \<and> t \<noteq> 7
     \<and> \<not> k + 1 + k + kOffsetSize ext \<le> GetMaxEntrySize ext k t * 8"
proof (induction ext table_sizes k memory_size num_buckets log_num_buckets table_index st
    rule: backpropagate.induct)
  case (1 ext table_sizes k memory_size num_buckets log_num_buckets table_index st)
  show ?case
  proof (cases "table_index > 1")
    case False
    with "1.prems" show ?thesis by (subst (asm) backpropagate.simps) simp
  next
    case True
    show ?thesis
    proof (cases "backpropagate_table ext table_sizes k memory_size num_buckets log_num_buckets
                    table_index st")
      case None
      with "1.prems" True show ?thesis by (subst (asm) backpropagate.simps) simp
    next
      case (Some res)
      show ?thesis
      proof (cases res)
        case (Inl e)
        with "1.prems" True Some have "e = AssertionFailed"
          by (subst (asm) backpropagate.simps) simp
        with Some Inl backpropagate_table_error [of ext table_sizes k memory_size num_buckets
            log_num_buckets table_index st] True
        show ?thesis by (intro exI [of _ table_index]) simp
      next
        case (Inr st')
        with "1.prems" True Some
        have "backpropagate ext table_sizes k memory_size num_buckets log_num_buckets
                (table_index - 1) st' = Some (Inl AssertionFailed)"
          by (subst (asm) backpropagate.simps) simp
        from "1.IH" [OF True Some Inr this]
        obtain t where "2 \<le> t" "t \<le> table_index - 1" "t \<noteq> 7"
          "\<not> k + 1 + k + kOffsetSize ext \<le> GetMaxEntrySize ext k t * 8"
          by blast
        then show ?thesis by (intro exI [of _ t]) simp
      qed
    qed
  qed
qed

lemma compact_table_1_error:
  "compact_table_1 es n bf disk r rc w wcur = Inl err \<Longrightarrow> err \<noteq> AssertionFailed"
proof (induction es n bf disk r rc w wcur rule: compact_table_1.induct)
  case (1 es n bf disk r rc w wcur)
  from "1.prems" show ?case
    by (subst (asm) compact_table_1.simps)
      (auto simp add: disk_Read_def split: if_splits sum.splits dest: "1.IH")
qed

text \<open>
  C9. When the entry width of every table 2 to 6, as \<^verbatim>\<open>GetMaxEntrySize\<close> gives it, holds
  the \<open>(k + 1) + k + kOffsetSize\<close> bits of a new entry, the assertion of line 218 holds
  at every entry the second scan emits: no run ends in the assertion failure.
\<close>

theorem assertion_unreachable:
  assumes "widths_ok ext k"
  shows "RunPhase2 ext disks table_sizes k memory_size num_buckets log_num_buckets
         \<noteq> Some (Inl AssertionFailed)"
proof
  assume run: "RunPhase2 ext disks table_sizes k memory_size num_buckets log_num_buckets
      = Some (Inl AssertionFailed)"
  let ?loop = "backpropagate ext table_sizes k memory_size num_buckets log_num_buckets 7
             \<lparr>tmp_1_disks = disks, new_table_sizes = (replicate 8 0)[7 := table_sizes 7],
              current_bitfield = []\<rparr>"
  show False
  proof (cases ?loop)
    case None
    with run show False by (simp add: RunPhase2_def)
  next
    case (Some res)
    show False
    proof (cases res)
      case (Inl e)
      with run Some have "?loop = Some (Inl AssertionFailed)" by (simp add: RunPhase2_def)
      from backpropagate_error [OF this]
      obtain t where "2 \<le> t" "t \<le> 7" "t \<noteq> 7"
        "\<not> k + 1 + k + kOffsetSize ext \<le> GetMaxEntrySize ext k t * 8"
        by blast
      with assms show False by (simp add: widths_ok_def)
    next
      case (Inr st)
      with run Some show False
        by (auto simp add: RunPhase2_def split: sum.splits dest: compact_table_1_error)
    qed
  qed
qed

theorem assertion_unreachable_witness:
  "widths_ok example_ext 2
   \<and> RunPhase2 example_ext example_disks example_sizes 2 16 4 2 \<noteq> Some (Inl AssertionFailed)"
proof -
  have w: "widths_ok example_ext 2"
    by (simp add: widths_ok_def example_ext_def)
  from w assertion_unreachable [OF w] show ?thesis by simp
qed

subsection \<open>The small instance\<close>

lemma ball_2_7: "(\<forall>t \<in> {2..7::nat}. P t) \<longleftrightarrow> P 2 \<and> P 3 \<and> P 4 \<and> P 5 \<and> P 6 \<and> P 7"
proof -
  have "{2..7::nat} = {2, 3, 4, 5, 6, 7}" by auto
  then show ?thesis by simp
qed

lemma ball_2_6: "(\<forall>t \<in> {2..6::nat}. P t) \<longleftrightarrow> P 2 \<and> P 3 \<and> P 4 \<and> P 5 \<and> P 6"
proof -
  have "{2..6::nat} = {2, 3, 4, 5, 6}" by auto
  then show ?thesis by simp
qed

lemma example_liveness_6:
  "liveness example_ext example_disks example_sizes 2 6 = [True, True, True, False]"
  unfolding liveness_below [of 6, simplified] liveness_7
  by code_simp

lemma example_liveness_5:
  "liveness example_ext example_disks example_sizes 2 5 = [True, True, True, False]"
  unfolding liveness_below [of 5, simplified] example_liveness_6
  by code_simp

lemma example_liveness_4:
  "liveness example_ext example_disks example_sizes 2 4 = [True, True, True, False]"
  unfolding liveness_below [of 4, simplified] example_liveness_5
  by code_simp

lemma example_liveness_3:
  "liveness example_ext example_disks example_sizes 2 3 = [True, True, True, False]"
  unfolding liveness_below [of 3, simplified] example_liveness_4
  by code_simp

lemma example_liveness_2:
  "liveness example_ext example_disks example_sizes 2 2 = [True, True, True, False]"
  unfolding liveness_below [of 2, simplified] example_liveness_3
  by code_simp

lemma example_liveness_1:
  "liveness example_ext example_disks example_sizes 2 1 = [True, True, True, False]"
  unfolding liveness_below [of 1, simplified] example_liveness_2
  by code_simp

lemmas example_liveness = liveness_7 example_liveness_6 example_liveness_5 example_liveness_4
  example_liveness_3 example_liveness_2 example_liveness_1

lemma example_tables_ok: "tables_ok example_ext example_disks example_sizes 2"
  unfolding tables_ok_def ball_2_7 by code_simp

lemma example_memory_ok: "memory_ok example_ext 2 16"
  unfolding memory_ok_def ball_2_7 by code_simp

lemma example_widths_ok: "widths_ok example_ext 2"
  unfolding widths_ok_def ball_2_6 by code_simp

lemma all_less_2: "(\<forall>j<2. P j) \<longleftrightarrow> P 0 \<and> P (1::nat)"
proof -
  have "\<And>j::nat. j < 2 \<longleftrightarrow> j = 0 \<or> j = 1" by arith
  then show ?thesis by auto
qed

lemma all_less_4: "(\<forall>j<4. P j) \<longleftrightarrow> P 0 \<and> P 1 \<and> P 2 \<and> P (3::nat)"
proof -
  have "\<And>j::nat. j < 4 \<longleftrightarrow> j = 0 \<or> j = 1 \<or> j = 2 \<or> j = 3" by arith
  then show ?thesis by auto
qed

lemma example_sizes_simps:
  "example_sizes 7 = 2" "example_sizes 6 = 4" "example_sizes 5 = 4" "example_sizes 4 = 4"
  "example_sizes 3 = 4" "example_sizes 2 = 4" "example_sizes 1 = 4"
  by (simp_all add: example_sizes_def)

lemma example_references_ok: "references_ok example_ext example_disks example_sizes 2"
  unfolding references_ok_def ball_2_7 example_liveness example_sizes_simps all_less_2 all_less_4
  by code_simp

lemma example_run_ok: "run_ok example_ext example_disks example_sizes 2 16"
  unfolding run_ok_def
  using example_tables_ok example_memory_ok example_references_ok example_widths_ok by simp

lemma example_sizes_after:
  "phase2_sizes example_ext example_disks example_sizes 2 = [0, 3, 3, 3, 3, 3, 3, 2]"
  unfolding phase2_sizes_def upt_8 survivors_def list.map example_liveness by code_simp

subsection \<open>What the first scan marks\<close>

text \<open>
  C1. In the iteration for table \<open>table_index\<close> (7 down to 2), the first scan returns the
  next bitfield, one bit for each entry of table \<open>table_index - 1\<close>, and the bit at
  \<open>e\<close> is set if and only if some retained entry \<open>j\<close> of table \<open>table_index\<close> (every
  entry of table 7, the entries whose current bit is set otherwise) has \<open>pos = e\<close> or
  \<open>pos + offset = e\<close>. The second scan starts from that complete bitfield and from the
  table file as it was: the first scan writes nothing. The preconditions are those of a
  run: the file holds the entries, half the memory holds one entry, and the references
  of the retained entries lie within the table below.
\<close>

theorem next_bitfield_marks_references:
  fixes ext :: externals and st :: phase2_state and table_sizes :: "nat \<Rightarrow> nat"
    and k table_index memory_size :: nat
  defines "es \<equiv> GetMaxEntrySize ext k table_index"
    and "n \<equiv> table_sizes table_index"
    and "n' \<equiv> table_sizes (table_index - 1)"
    and "cur \<equiv> current_bitfield st"
    and "disk \<equiv> tmp_1_disks st table_index"
  defines "pos \<equiv> \<lambda>j. entry_pos k table_index (entry_at disk es j)"
    and "off \<equiv> \<lambda>j. entry_offset k (kOffsetSize ext) table_index (entry_at disk es j)"
  assumes es: "0 < es" and mem: "es \<le> memory_size div 2"
    and fit: "fields_fit k (kOffsetSize ext) table_index es"
    and len: "n * es \<le> length disk"
    and lcur: "table_index \<noteq> 7 \<longrightarrow> n \<le> length cur"
    and refs: "\<forall>j<n. retained table_index cur j \<longrightarrow> pos j + off j < n'"
  shows "\<exists>next_bitfield.
      scan_table k (kOffsetSize ext) table_index es n (read_buffer_size memory_size es) cur disk
        0 0 (replicate n' False) = Some (Inr next_bitfield)
    \<and> length next_bitfield = n'
    \<and> (\<forall>e<n'. next_bitfield ! e \<longleftrightarrow>
          (\<exists>j<n. retained table_index cur j \<and> (pos j = e \<or> pos j + off j = e)))
    \<and> backpropagate_table ext table_sizes k memory_size num_buckets log_num_buckets
          table_index st
        = (case remap_table k (kOffsetSize ext) table_index es n
                  (read_buffer_size memory_size es) cur next_bitfield disk 0 0 [] 0 of
             None \<Rightarrow> None
           | Some (Inl e) \<Rightarrow> Some (Inl e)
           | Some (Inr scanned) \<Rightarrow>
               Some (Inr (finish_table ext k (memory_size - read_buffer_size memory_size es)
                 num_buckets log_num_buckets table_index es st next_bitfield scanned)))"
proof -
  let ?L = "next_liveness k (kOffsetSize ext) table_index es cur disk n n'"
  have rib: "refs_in_bounds k (kOffsetSize ext) table_index es cur disk n' [0..<n]"
    using lcur refs by (auto simp add: refs_in_bounds_def pos_def off_def)
  have scan: "scan_table k (kOffsetSize ext) table_index es n (read_buffer_size memory_size es)
        cur disk 0 0 (replicate n' False) = Some (Inr ?L)"
    using scan_table_next [OF es mem fit len] rib by simp
  have marks: "\<forall>e<n'. ?L ! e \<longleftrightarrow>
          (\<exists>j<n. retained table_index cur j \<and> (pos j = e \<or> pos j + off j = e))"
    by (simp add: nth_next_liveness referenced_upt pos_def off_def)
  have "backpropagate_table ext table_sizes k memory_size num_buckets log_num_buckets
          table_index st
        = (case remap_table k (kOffsetSize ext) table_index es n
                  (read_buffer_size memory_size es) cur ?L disk 0 0 [] 0 of
             None \<Rightarrow> None
           | Some (Inl e) \<Rightarrow> Some (Inl e)
           | Some (Inr scanned) \<Rightarrow>
               Some (Inr (finish_table ext k (memory_size - read_buffer_size memory_size es)
                 num_buckets log_num_buckets table_index es st ?L scanned)))"
    using es scan unfolding es_def n_def n'_def cur_def disk_def
    by (simp add: backpropagate_table_def Let_def del: One_nat_def)
  with scan marks show ?thesis
    by (intro exI [of _ ?L]) simp
qed

theorem next_bitfield_marks_references_witness:
  "(\<exists>next_bitfield.
      scan_table 2 (kOffsetSize example_ext) 6 (GetMaxEntrySize example_ext 2 6) (example_sizes 6)
        (read_buffer_size 16 (GetMaxEntrySize example_ext 2 6)) (current_bitfield example_state)
        (tmp_1_disks example_state 6) 0 0 (replicate (example_sizes (6 - 1)) False)
      = Some (Inr next_bitfield)
    \<and> length next_bitfield = example_sizes (6 - 1)
    \<and> (\<forall>e<example_sizes (6 - 1). next_bitfield ! e \<longleftrightarrow>
          (\<exists>j<example_sizes 6. retained 6 (current_bitfield example_state) j
             \<and> (entry_pos 2 6 (entry_at (tmp_1_disks example_state 6)
                                 (GetMaxEntrySize example_ext 2 6) j) = e
                \<or> entry_pos 2 6 (entry_at (tmp_1_disks example_state 6)
                                    (GetMaxEntrySize example_ext 2 6) j)
                  + entry_offset 2 (kOffsetSize example_ext) 6
                      (entry_at (tmp_1_disks example_state 6)
                         (GetMaxEntrySize example_ext 2 6) j) = e)))
    \<and> backpropagate_table example_ext example_sizes 2 16 4 2 6 example_state
        = (case remap_table 2 (kOffsetSize example_ext) 6 (GetMaxEntrySize example_ext 2 6)
                  (example_sizes 6) (read_buffer_size 16 (GetMaxEntrySize example_ext 2 6))
                  (current_bitfield example_state) next_bitfield (tmp_1_disks example_state 6)
                  0 0 [] 0 of
             None \<Rightarrow> None
           | Some (Inl e) \<Rightarrow> Some (Inl e)
           | Some (Inr scanned) \<Rightarrow>
               Some (Inr (finish_table example_ext 2
                 (16 - read_buffer_size 16 (GetMaxEntrySize example_ext 2 6)) 4 2 6
                 (GetMaxEntrySize example_ext 2 6) example_state next_bitfield scanned))))
   \<and> scan_table 2 1 6 1 4 2 [True, True, True, False] [0x20, 0x60, 0x80, 0xC0] 0 0
         [False, False, False, False]
       = Some (Inr [True, True, True, False])"
proof -
  have h1: "0 < GetMaxEntrySize example_ext 2 6"
    and h2: "GetMaxEntrySize example_ext 2 6 \<le> 16 div 2"
    and h3: "fields_fit 2 (kOffsetSize example_ext) 6 (GetMaxEntrySize example_ext 2 6)"
    and h4: "example_sizes 6 * GetMaxEntrySize example_ext 2 6
             \<le> length (tmp_1_disks example_state 6)"
    and h5: "6 \<noteq> 7 \<longrightarrow> example_sizes 6 \<le> length (current_bitfield example_state)"
    by (simp_all add: example_ext_def example_sizes_def example_state_def example_disks_def
        fields_fit_def)
  have h6: "\<forall>j<example_sizes 6. retained 6 (current_bitfield example_state) j \<longrightarrow>
      entry_pos 2 6 (entry_at (tmp_1_disks example_state 6) (GetMaxEntrySize example_ext 2 6) j)
      + entry_offset 2 (kOffsetSize example_ext) 6
          (entry_at (tmp_1_disks example_state 6) (GetMaxEntrySize example_ext 2 6) j)
      < example_sizes (6 - 1)"
    unfolding example_sizes_simps all_less_4 by code_simp
  have run: "scan_table 2 1 6 1 4 2 [True, True, True, False] [0x20, 0x60, 0x80, 0xC0] 0 0
         [False, False, False, False]
       = Some (Inr [True, True, True, False])"
    by code_simp
  from next_bitfield_marks_references [OF h1 h2 h3 h4 h5 h6, of 4 2] run
  show ?thesis by blast
qed

subsection \<open>The bounds of the bitfield accesses\<close>

text \<open>
  C10. The accesses to the bitfields are unchecked (an access outside a vector is the
  error \<open>OutOfBounds\<close> of the model). In the iteration for table \<open>table_index\<close>, with the
  current bitfield as long as the table, the first scan leaves the next bitfield's bounds
  exactly when some retained entry has \<open>pos + offset\<close> not below the size of the table
  below. When every retained entry has \<open>pos + offset\<close> below that size, the first scan
  returns the next bitfield, the positions \<open>pos\<close> and \<open>pos + offset\<close> that the second
  scan looks up lie within it and are set, and the second scan ends without an access
  out of bounds.
\<close>

theorem bitfield_accesses_in_bounds:
  fixes ext :: externals and st :: phase2_state and table_sizes :: "nat \<Rightarrow> nat"
    and k table_index memory_size :: nat
  defines "es \<equiv> GetMaxEntrySize ext k table_index"
    and "n \<equiv> table_sizes table_index"
    and "n' \<equiv> table_sizes (table_index - 1)"
    and "cur \<equiv> current_bitfield st"
    and "disk \<equiv> tmp_1_disks st table_index"
  defines "pos \<equiv> \<lambda>j. entry_pos k table_index (entry_at disk es j)"
    and "off \<equiv> \<lambda>j. entry_offset k (kOffsetSize ext) table_index (entry_at disk es j)"
  assumes es: "0 < es" and mem: "es \<le> memory_size div 2"
    and fit: "fields_fit k (kOffsetSize ext) table_index es"
    and len: "n * es \<le> length disk"
    and lcur: "table_index \<noteq> 7 \<longrightarrow> n \<le> length cur"
  shows "(scan_table k (kOffsetSize ext) table_index es n (read_buffer_size memory_size es) cur
            disk 0 0 (replicate n' False) = Some (Inl OutOfBounds)
          \<longleftrightarrow> \<not> (\<forall>j<n. retained table_index cur j \<longrightarrow> pos j + off j < n'))
    \<and> ((\<forall>j<n. retained table_index cur j \<longrightarrow> pos j + off j < n') \<longrightarrow>
         (\<exists>next_bitfield.
            scan_table k (kOffsetSize ext) table_index es n (read_buffer_size memory_size es) cur
              disk 0 0 (replicate n' False) = Some (Inr next_bitfield)
          \<and> length next_bitfield = n'
          \<and> (\<forall>j<n. retained table_index cur j \<longrightarrow>
                pos j < n' \<and> pos j + off j < n'
                \<and> next_bitfield ! pos j \<and> next_bitfield ! (pos j + off j))
          \<and> (\<exists>res. remap_table k (kOffsetSize ext) table_index es n
                       (read_buffer_size memory_size es) cur next_bitfield disk 0 0 [] 0
                     = Some res \<and> res \<noteq> Inl OutOfBounds)))"
proof -
  let ?L = "next_liveness k (kOffsetSize ext) table_index es cur disk n n'"
  let ?ok = "\<forall>j<n. retained table_index cur j \<longrightarrow> pos j + off j < n'"
  have rib: "refs_in_bounds k (kOffsetSize ext) table_index es cur disk n' [0..<n] \<longleftrightarrow> ?ok"
    using lcur by (auto simp add: refs_in_bounds_def pos_def off_def)
  have scan: "scan_table k (kOffsetSize ext) table_index es n (read_buffer_size memory_size es)
        cur disk 0 0 (replicate n' False)
      = Some (if ?ok then Inr ?L else Inl OutOfBounds)"
    using scan_table_next [OF es mem fit len, of cur n'] by (simp only: rib)
  have first: "scan_table k (kOffsetSize ext) table_index es n (read_buffer_size memory_size es)
        cur disk 0 0 (replicate n' False) = Some (Inl OutOfBounds) \<longleftrightarrow> \<not> ?ok"
    unfolding scan by simp
  have second: "\<exists>next_bitfield.
            scan_table k (kOffsetSize ext) table_index es n (read_buffer_size memory_size es) cur
              disk 0 0 (replicate n' False) = Some (Inr next_bitfield)
          \<and> length next_bitfield = n'
          \<and> (\<forall>j<n. retained table_index cur j \<longrightarrow>
                pos j < n' \<and> pos j + off j < n'
                \<and> next_bitfield ! pos j \<and> next_bitfield ! (pos j + off j))
          \<and> (\<exists>res. remap_table k (kOffsetSize ext) table_index es n
                       (read_buffer_size memory_size es) cur next_bitfield disk 0 0 [] 0
                     = Some res \<and> res \<noteq> Inl OutOfBounds)" if ok: ?ok
  proof -
    have set: "\<forall>j<n. retained table_index cur j \<longrightarrow>
                pos j < n' \<and> pos j + off j < n' \<and> ?L ! pos j \<and> ?L ! (pos j + off j)"
    proof (intro allI impI)
      fix j assume j: "j < n" and r: "retained table_index cur j"
      with ok have b: "pos j + off j < n'" by simp
      then have a: "pos j < n'" by simp
      have "referenced k (kOffsetSize ext) table_index es cur disk [0..<n] (pos j)"
        and "referenced k (kOffsetSize ext) table_index es cur disk [0..<n] (pos j + off j)"
        using j r unfolding referenced_upt pos_def off_def by blast+
      with a b show "pos j < n' \<and> pos j + off j < n' \<and> ?L ! pos j \<and> ?L ! (pos j + off j)"
        by (simp add: nth_next_liveness)
    qed
    have rm: "remap_table k (kOffsetSize ext) table_index es n (read_buffer_size memory_size es)
          cur ?L disk 0 0 [] 0
        = Some (remap_entries k (kOffsetSize ext) table_index es cur ?L [0..<n] disk [] 0)"
      by (rule remap_table_eq [OF es mem fit len])
    have "remap_entries k (kOffsetSize ext) table_index es cur ?L [0..<n] disk [] 0
        \<noteq> Inl OutOfBounds"
    proof
      assume "remap_entries k (kOffsetSize ext) table_index es cur ?L [0..<n] disk [] 0
        = Inl OutOfBounds"
      from remap_entries_error [OF this] lcur show False by auto
    qed
    with rm scan ok set show ?thesis
      by (intro exI [of _ ?L]) simp
  qed
  from first second show ?thesis by blast
qed

theorem bitfield_accesses_in_bounds_witness:
  "(scan_table 2 (kOffsetSize example_ext) 6 (GetMaxEntrySize example_ext 2 6) (example_sizes 6)
      (read_buffer_size 16 (GetMaxEntrySize example_ext 2 6)) (current_bitfield example_state)
      (tmp_1_disks example_state 6) 0 0 (replicate (example_sizes (6 - 1)) False)
    = Some (Inl OutOfBounds))
   = (\<not> (\<forall>j<example_sizes 6. retained 6 (current_bitfield example_state) j \<longrightarrow>
           entry_pos 2 6 (entry_at (tmp_1_disks example_state 6)
                            (GetMaxEntrySize example_ext 2 6) j)
           + entry_offset 2 (kOffsetSize example_ext) 6
               (entry_at (tmp_1_disks example_state 6) (GetMaxEntrySize example_ext 2 6) j)
           < example_sizes (6 - 1)))
   \<and> scan_table 2 1 6 1 4 2 [True, True, True, True] [0x20, 0x60, 0x80, 0xC0] 0 0
         [False, False, False] = Some (Inl OutOfBounds)"
proof -
  have h1: "0 < GetMaxEntrySize example_ext 2 6"
    and h2: "GetMaxEntrySize example_ext 2 6 \<le> 16 div 2"
    and h3: "fields_fit 2 (kOffsetSize example_ext) 6 (GetMaxEntrySize example_ext 2 6)"
    and h4: "example_sizes 6 * GetMaxEntrySize example_ext 2 6
             \<le> length (tmp_1_disks example_state 6)"
    and h5: "6 \<noteq> 7 \<longrightarrow> example_sizes 6 \<le> length (current_bitfield example_state)"
    by (simp_all add: example_ext_def example_sizes_def example_state_def example_disks_def
        fields_fit_def)
  have run: "scan_table 2 1 6 1 4 2 [True, True, True, True] [0x20, 0x60, 0x80, 0xC0] 0 0
         [False, False, False] = Some (Inl OutOfBounds)"
    by code_simp
  from bitfield_accesses_in_bounds [where ext = example_ext and k = 2 and table_index = 6
      and memory_size = 16 and table_sizes = example_sizes and st = example_state,
      OF h1 h2 h3 h4 h5] run
  show ?thesis by blast
qed

subsection \<open>Table 1\<close>

lemma length_filter_nth:
  "length (filter (\<lambda>j. L ! j) [0..<length L]) = length (filter id L)"
proof -
  have "{i. i < length [0..<length L] \<and> L ! ([0..<length L] ! i)} = {i. i < length L \<and> id (L ! i)}"
    by auto
  then show ?thesis
    unfolding length_filter_conv_card by simp
qed

lemma length_concat_entries:
  "\<forall>j \<in> set js. (j + 1) * es \<le> length disk \<Longrightarrow>
   length (concat (map (entry_at disk es) js)) = length js * es"
  by (induction js) (simp_all add: length_entry_at)

lemma phase2_sizes_nth:
  "t < 8 \<Longrightarrow> phase2_sizes ext disks table_sizes k ! t
     = (if t = 0 then 0 else length (survivors ext disks table_sizes k t))"
  by (simp add: phase2_sizes_def)

lemma phase2_disks_1:
  "phase2_disks ext disks table_sizes k memory_size num_buckets log_num_buckets 1
   = compacted_table_1 ext disks table_sizes k"
  by (simp add: phase2_disks_def)

lemma phase2_disks_7:
  "phase2_disks ext disks table_sizes k memory_size num_buckets log_num_buckets 7
   = rewritten_table_7 ext disks table_sizes k"
  by (simp add: phase2_disks_def)


text \<open>
  C6. Table 1 is compacted with no remapping and no sort: the loop of lines 267 to 281
  returns the count of set bits of the final liveness set as the new size of table 1,
  the file is left holding exactly the entries of the original file whose bit is set,
  in their original order and from offset 0 on, and it is truncated to that count times
  the entry width.
\<close>

theorem table_1_compacted:
  fixes ext :: externals and disks :: "nat \<Rightarrow> byte list" and table_sizes :: "nat \<Rightarrow> nat"
    and k :: nat
  defines "es \<equiv> GetMaxEntrySize ext k 1"
    and "final \<equiv> liveness ext disks table_sizes k 1"
  assumes ok: "run_ok ext disks table_sizes k memory_size"
  shows "\<exists>sizes disks' disk.
      RunPhase2 ext disks table_sizes k memory_size num_buckets log_num_buckets
        = Some (Inr (sizes, disks'))
    \<and> sizes ! 1 = length (filter id final)
    \<and> compact_table_1 es (table_sizes 1) final (disks 1) 0 0 0 0
        = Inr (disk, sizes ! 1, sizes ! 1 * es)
    \<and> disks' 1 = disk_Truncate disk (sizes ! 1 * es)
    \<and> disks' 1 = concat (map (entry_at (disks 1) es) (filter (\<lambda>j. final ! j) [0..<table_sizes 1]))
    \<and> length (disks' 1) = sizes ! 1 * es"
proof -
  let ?sv = "length (survivors ext disks table_sizes k 1)"
  have len: "table_sizes 1 * es \<le> length (disks 1)"
    using ok by (simp add: run_ok_def tables_ok_def es_def)
  have lf: "length final = table_sizes 1"
    by (simp add: final_def length_liveness)
  have sv: "survivors ext disks table_sizes k 1 = filter (\<lambda>j. final ! j) [0..<table_sizes 1]"
    by (simp only: survivors_1 final_def)
  have cnt: "?sv = length (filter id final)"
    unfolding sv using length_filter_nth [of final] by (simp add: lf)
  have "\<exists>d. compact_table_1 es (table_sizes 1) final (disks 1) 0 (0 * es) 0 (0 * es)
           = Inr (d, 0 + length (filter (\<lambda>j. final ! j) [0..<table_sizes 1]),
                  (0 + length (filter (\<lambda>j. final ! j) [0..<table_sizes 1])) * es)
       \<and> take ((0 + length (filter (\<lambda>j. final ! j) [0..<table_sizes 1])) * es) d
           = take (0 * es) (disks 1)
             @ concat (map (entry_at (disks 1) es) (filter (\<lambda>j. final ! j) [0..<table_sizes 1]))
       \<and> length d = length (disks 1)"
    by (rule compact_table_1_eq [OF len]) (simp_all add: lf)
  then obtain d where c: "compact_table_1 es (table_sizes 1) final (disks 1) 0 0 0 0
        = Inr (d, ?sv, ?sv * es)"
    and tk: "take (?sv * es) d
        = concat (map (entry_at (disks 1) es) (filter (\<lambda>j. final ! j) [0..<table_sizes 1]))"
    and ld: "length d = length (disks 1)"
    unfolding sv [symmetric]
    by (auto simp only: mult_0 add_0 take_0 append_Nil)
  have "?sv \<le> table_sizes 1"
    unfolding survivors_def by (rule length_kept_le)
  from entries_le [OF this len] ld have "?sv * es - length d = 0" by simp
  then have tr: "disk_Truncate d (?sv * es)
      = concat (map (entry_at (disks 1) es) (filter (\<lambda>j. final ! j) [0..<table_sizes 1]))"
    by (simp only: disk_Truncate_def tk replicate_0 append_Nil2)
  have run: "RunPhase2 ext disks table_sizes k memory_size num_buckets log_num_buckets
      = Some (Inr (phase2_sizes ext disks table_sizes k,
                   phase2_disks ext disks table_sizes k memory_size num_buckets log_num_buckets))"
    by (rule RunPhase2_eq [OF ok])
  have s1: "phase2_sizes ext disks table_sizes k ! 1 = ?sv"
    by (simp add: phase2_sizes_nth)
  have d1: "phase2_disks ext disks table_sizes k memory_size num_buckets log_num_buckets 1
      = concat (map (entry_at (disks 1) es) (filter (\<lambda>j. final ! j) [0..<table_sizes 1]))"
    by (simp only: phase2_disks_1 compacted_table_1_def sv es_def)
  have "length (disk_Truncate d (?sv * es)) = ?sv * es" by simp
  with run s1 d1 c tr cnt show ?thesis
    by (intro exI [of _ "phase2_sizes ext disks table_sizes k"]
        exI [of _ "phase2_disks ext disks table_sizes k memory_size num_buckets log_num_buckets"]
        exI [of _ d]) (simp del: One_nat_def)
qed

theorem table_1_compacted_witness:
  "run_ok example_ext example_disks example_sizes 2 16
   \<and> (\<exists>sizes disks' disk.
      RunPhase2 example_ext example_disks example_sizes 2 16 4 2 = Some (Inr (sizes, disks'))
    \<and> sizes ! 1 = length (filter id (liveness example_ext example_disks example_sizes 2 1))
    \<and> compact_table_1 (GetMaxEntrySize example_ext 2 1) (example_sizes 1)
          (liveness example_ext example_disks example_sizes 2 1) (example_disks 1) 0 0 0 0
        = Inr (disk, sizes ! 1, sizes ! 1 * GetMaxEntrySize example_ext 2 1)
    \<and> disks' 1 = disk_Truncate disk (sizes ! 1 * GetMaxEntrySize example_ext 2 1)
    \<and> disks' 1 = concat (map (entry_at (example_disks 1) (GetMaxEntrySize example_ext 2 1))
                     (filter (\<lambda>j. liveness example_ext example_disks example_sizes 2 1 ! j)
                        [0..<example_sizes 1]))
    \<and> length (disks' 1) = sizes ! 1 * GetMaxEntrySize example_ext 2 1)
   \<and> concat (map (entry_at (example_disks 1) (GetMaxEntrySize example_ext 2 1))
               (filter (\<lambda>j. liveness example_ext example_disks example_sizes 2 1 ! j)
                  [0..<example_sizes 1]))
     = [0xA0, 0xA1, 0xA2]"
proof -
  have v: "concat (map (entry_at (example_disks 1) (GetMaxEntrySize example_ext 2 1))
               (filter (\<lambda>j. liveness example_ext example_disks example_sizes 2 1 ! j)
                  [0..<example_sizes 1]))
     = [0xA0, 0xA1, 0xA2]"
    unfolding example_liveness by code_simp
  from example_run_ok table_1_compacted [OF example_run_ok, of 4 2] v
  show ?thesis by blast
qed

subsection \<open>The entries emitted for the sort manager\<close>

lemma take_zero_padded:
  "m \<le> length bits \<Longrightarrow> take m (zero_padded es bits) = take m bits"
  by (simp add: zero_padded_def)

lemma take_new_entry:
  "take (Suc k) (new_entry k kOffset table_index index c e) = Bits c (Suc k)"
  by (simp add: new_entry_def)

lemma nth_emitted:
  "c < length js \<Longrightarrow>
   emitted k kOffset table_index es index disk 0 js ! c
   = zero_padded es (new_entry k kOffset table_index index c (entry_at disk es (js ! c)))"
  by (simp add: emitted_def)

lemma Slice_ToBytes_prefix:
  assumes "m \<le> length bits"
  shows "SliceInt64FromBytes (ToBytes bits) 0 m = bits_to_nat (take m bits)"
  using assms by (simp add: SliceInt64FromBytes_def bits_of_bytes_ToBytes pad_bits_def)

subsection \<open>The rewritten entries of table 7\<close>

lemma rank_le: "rank bitfield p \<le> p"
proof -
  have "length (filter id (take p bitfield)) \<le> length (take p bitfield)"
    by (rule length_filter_le)
  then show ?thesis by (simp add: rank_def)
qed

lemma rank_add_le: "rank bitfield (p + d) \<le> rank bitfield p + d"
proof -
  have "take (p + d) bitfield = take p bitfield @ take d (drop p bitfield)"
    by (rule take_add)
  moreover have "length (filter id (take d (drop p bitfield))) \<le> length (take d (drop p bitfield))"
    by (rule length_filter_le)
  ultimately show ?thesis by (simp add: rank_def)
qed

lemma Slice_less: "SliceInt64FromBytes bytes start m < 2 ^ m"
proof -
  let ?bs = "take m (drop start (bits_of_bytes bytes))"
  have "bits_to_nat ?bs < 2 ^ length ?bs" by (rule bits_to_nat_less)
  also have "(2::nat) ^ length ?bs \<le> 2 ^ m" by (intro power_increasing) simp_all
  finally show ?thesis by (simp add: SliceInt64FromBytes_def)
qed

lemma bits_to_nat_Bits_small: "v < 2 ^ m \<Longrightarrow> bits_to_nat (Bits v m) = v"
  by (simp add: bits_to_nat_Bits take_bit_nat_eq_self)

lemma lookup_bounds:
  assumes "pos < 2 ^ k" and "off < 2 ^ kOffset"
  shows "fst (lookup index pos off) < 2 ^ k" and "snd (lookup index pos off) < 2 ^ kOffset"
proof -
  have "rank index pos \<le> pos" by (rule rank_le)
  with assms(1) show "fst (lookup index pos off) < 2 ^ k"
    by (simp add: lookup_def Let_def)
  have "rank index (pos + off) - rank index pos \<le> off"
    using rank_add_le [of index pos off] by simp
  with assms(2) show "snd (lookup index pos off) < 2 ^ kOffset"
    by (simp add: lookup_def Let_def)
qed

lemma rewritten_7_fields:
  assumes fit: "fields_fit k kOffset 7 es" and le: "length e = es"
  shows "SliceInt64FromBytes (rewritten_7 k kOffset es index e) 0 k = SliceInt64FromBytes e 0 k"
    and "entry_pos k 7 (rewritten_7 k kOffset es index e)
         = fst (lookup index (entry_pos k 7 e) (entry_offset k kOffset 7 e))"
    and "entry_offset k kOffset 7 (rewritten_7 k kOffset es index e)
         = snd (lookup index (entry_pos k 7 e) (entry_offset k kOffset 7 e))"
    and "drop ((k + k + kOffset + 7) div 8) (rewritten_7 k kOffset es index e)
         = drop ((k + k + kOffset + 7) div 8) e"
proof -
  let ?f7 = "SliceInt64FromBytes e 0 k"
  let ?np = "fst (lookup index (entry_pos k 7 e) (entry_offset k kOffset 7 e))"
  let ?no = "snd (lookup index (entry_pos k 7 e) (entry_offset k kOffset 7 e))"
  let ?A = "Bits ?f7 k" and ?B = "Bits ?np k" and ?C = "Bits ?no kOffset"
  let ?tb = "ToBytes (new_entry_7 k kOffset index e)"
  let ?t = "(k + k + kOffset + 7) div 8"
  have ne: "new_entry_7 k kOffset index e = ?A @ ?B @ ?C"
    by (simp add: new_entry_7_def)
  have lt: "length ?tb = ?t" by simp
  have tes: "?t \<le> es" using fit by (simp add: fields_fit_def)
  have r: "rewritten_7 k kOffset es index e = ?tb @ drop ?t e"
    using tes le by (simp add: rewritten_7_def copy_to_def)
  obtain Z where bits: "bits_of_bytes (rewritten_7 k kOffset es index e) = ?A @ ?B @ ?C @ Z"
    unfolding r by (simp add: bits_of_bytes_ToBytes pad_bits_def ne)
  have f7: "?f7 < 2 ^ k" by (rule Slice_less)
  have "entry_pos k 7 e < 2 ^ k" and "entry_offset k kOffset 7 e < 2 ^ kOffset"
    by (simp_all add: entry_pos_def entry_offset_def Slice_less)
  from lookup_bounds [OF this] have np: "?np < 2 ^ k" and no: "?no < 2 ^ kOffset" .
  show "SliceInt64FromBytes (rewritten_7 k kOffset es index e) 0 k = ?f7"
    unfolding SliceInt64FromBytes_def [of "rewritten_7 k kOffset es index e"] bits
    using f7 by (simp add: bits_to_nat_Bits_small)
  have s1: "SliceInt64FromBytes (rewritten_7 k kOffset es index e) k k = ?np"
    unfolding SliceInt64FromBytes_def [of "rewritten_7 k kOffset es index e"] bits
    using np by (simp add: bits_to_nat_Bits_small)
  then show "entry_pos k 7 (rewritten_7 k kOffset es index e) = ?np"
    by (simp add: entry_pos_def [of _ _ "rewritten_7 k kOffset es index e"])
  have s2: "SliceInt64FromBytes (rewritten_7 k kOffset es index e) (k + k) kOffset = ?no"
    unfolding SliceInt64FromBytes_def [of "rewritten_7 k kOffset es index e"] bits
    using no by (simp add: bits_to_nat_Bits_small)
  then show "entry_offset k kOffset 7 (rewritten_7 k kOffset es index e) = ?no"
    by (simp add: entry_offset_def [of _ _ _ "rewritten_7 k kOffset es index e"])
  show "drop ?t (rewritten_7 k kOffset es index e) = drop ?t e"
    unfolding r using lt by simp
qed

subsection \<open>A read buffer of size 0\<close>




subsection \<open>The two scans drop the same entries\<close>

text \<open>
  C8. In the iteration for a table \<open>table_index\<close> below 7, the two scans go through the
  entries in file order with the same running index, from 0, and test the same current
  bitfield at that index. With \<open>live\<close> the indices below the table size whose bit is set,
  in increasing order: the first scan marks the references of exactly the entries at
  those indices, the second scan hands the sort manager exactly one entry for each of
  them, in that order, built from the entry at that index, and the iteration records
  their number as the new size of the table and writes back what the sort manager
  yields for them.
\<close>

theorem scans_agree_on_dropped_entries:
  fixes ext :: externals and st :: phase2_state and table_sizes :: "nat \<Rightarrow> nat"
    and k table_index memory_size :: nat
  defines "es \<equiv> GetMaxEntrySize ext k table_index"
    and "n \<equiv> table_sizes table_index"
    and "n' \<equiv> table_sizes (table_index - 1)"
    and "cur \<equiv> current_bitfield st"
    and "disk \<equiv> tmp_1_disks st table_index"
  defines "pos \<equiv> \<lambda>j. entry_pos k table_index (entry_at disk es j)"
    and "off \<equiv> \<lambda>j. entry_offset k (kOffsetSize ext) table_index (entry_at disk es j)"
    and "live \<equiv> filter (\<lambda>j. cur ! j) [0..<n]"
    and "cache_size \<equiv> memory_size - read_buffer_size memory_size es"
  assumes t: "table_index \<noteq> 7"
    and es: "0 < es" and mem: "es \<le> memory_size div 2"
    and fit: "fields_fit k (kOffsetSize ext) table_index es"
    and len: "n * es \<le> length disk"
    and lcur: "n \<le> length cur"
    and refs: "\<forall>j<n. cur ! j \<longrightarrow> pos j + off j < n'"
    and width: "k + 1 + k + kOffsetSize ext \<le> es * 8"
  shows "\<exists>next_bitfield entries st'.
      scan_table k (kOffsetSize ext) table_index es n (read_buffer_size memory_size es) cur disk
        0 0 (replicate n' False) = Some (Inr next_bitfield)
    \<and> (\<forall>e<n'. next_bitfield ! e \<longleftrightarrow> (\<exists>j \<in> set live. pos j = e \<or> pos j + off j = e))
    \<and> entries
        = map (\<lambda>(c, j). zero_padded es
                 (new_entry k (kOffsetSize ext) table_index next_bitfield c (entry_at disk es j)))
            (zip [0..<length live] live)
    \<and> remap_table k (kOffsetSize ext) table_index es n (read_buffer_size memory_size es) cur
          next_bitfield disk 0 0 [] 0
        = Some (Inr (disk, entries, length live))
    \<and> backpropagate_table ext table_sizes k memory_size num_buckets log_num_buckets table_index st = Some (Inr st')
    \<and> current_bitfield st' = next_bitfield
    \<and> new_table_sizes st' = (new_table_sizes st)[table_index := length live]
    \<and> tmp_1_disks st' table_index
        = disk_Truncate
            (write_sorted (SortManager ext cache_size num_buckets log_num_buckets es (k + 1) entries) es (length live)
               disk 0)
            (length live * es)"
proof -
  let ?L = "next_liveness k (kOffsetSize ext) table_index es cur disk n n'"
  let ?E = "map (\<lambda>(c, j). zero_padded es
                   (new_entry k (kOffsetSize ext) table_index ?L c (entry_at disk es j)))
              (zip [0..<length live] live)"
  let ?D = "disk_Truncate
            (write_sorted (SortManager ext cache_size num_buckets log_num_buckets es (k + 1) ?E)
               es (length live) disk 0)
            (length live * es)"
  let ?st' = "st\<lparr>tmp_1_disks := (tmp_1_disks st)(table_index := ?D),
                 new_table_sizes := (new_table_sizes st)[table_index := length live],
                 current_bitfield := ?L\<rparr>"
  have ret: "retained table_index cur = (\<lambda>j. cur ! j)"
    using t by (intro ext) (simp add: retained_def)
  have kept: "kept table_index cur [0..<n] = live"
    by (simp add: kept_def ret live_def)
  have rib: "refs_in_bounds k (kOffsetSize ext) table_index es cur disk n' [0..<n]"
    using lcur refs t by (auto simp add: refs_in_bounds_def pos_def off_def ret)
  have scan: "scan_table k (kOffsetSize ext) table_index es n (read_buffer_size memory_size es)
        cur disk 0 0 (replicate n' False) = Some (Inr ?L)"
    using scan_table_next [OF es mem fit len] rib by simp
  have marks: "\<forall>e<n'. ?L ! e \<longleftrightarrow> (\<exists>j \<in> set live. pos j = e \<or> pos j + off j = e)"
    by (auto simp add: nth_next_liveness referenced_def pos_def off_def ret live_def)
  have "\<forall>j \<in> set [0..<n]. j < length cur" using lcur by simp
  from remap_entries_below_7 [OF t width this]
  have "remap_table k (kOffsetSize ext) table_index es n (read_buffer_size memory_size es) cur
          ?L disk 0 0 [] 0
        = Some (Inr (disk, emitted k (kOffsetSize ext) table_index es ?L disk 0 live,
                     length live))"
    by (simp add: remap_table_eq [OF es mem fit len] kept)
  then have remap: "remap_table k (kOffsetSize ext) table_index es n
          (read_buffer_size memory_size es) cur ?L disk 0 0 [] 0
        = Some (Inr (disk, ?E, length live))"
    by (simp add: emitted_def)
  have es0: "GetMaxEntrySize ext k table_index \<noteq> 0" using es by (simp add: es_def)
  have "backpropagate_table ext table_sizes k memory_size num_buckets log_num_buckets
          table_index st
      = Some (Inr (finish_table ext k cache_size num_buckets log_num_buckets table_index es st
                     ?L (disk, ?E, length live)))"
    unfolding backpropagate_table_def Let_def
    using es0 scan remap
    by (simp add: es_def n_def n'_def cur_def disk_def cache_size_def)
  also have "finish_table ext k cache_size num_buckets log_num_buckets table_index es st
                     ?L (disk, ?E, length live) = ?st'"
    using t by (simp add: finish_table_def Let_def)
  finally have iter: "backpropagate_table ext table_sizes k memory_size num_buckets
      log_num_buckets table_index st = Some (Inr ?st')" .
  have a: "current_bitfield ?st' = ?L" by simp
  have b: "new_table_sizes ?st' = (new_table_sizes st)[table_index := length live]" by simp
  have c: "tmp_1_disks ?st' table_index = ?D" by simp
  from scan marks remap iter a b c show ?thesis
    by (intro exI [of _ ?L] exI [of _ ?E] exI [of _ ?st']) (simp only: simp_thms)
qed

theorem scans_agree_on_dropped_entries_witness:
  "\<exists>next_bitfield entries st'.
      scan_table 2 (kOffsetSize example_ext) 6 (GetMaxEntrySize example_ext 2 6) (example_sizes 6) (read_buffer_size 16 (GetMaxEntrySize example_ext 2 6)) (current_bitfield example_state) (tmp_1_disks example_state 6)
        0 0 (replicate (example_sizes (6 - 1)) False) = Some (Inr next_bitfield)
    \<and> (\<forall>e<(example_sizes (6 - 1)). next_bitfield ! e \<longleftrightarrow> (\<exists>j \<in> set (filter (\<lambda>j. (current_bitfield example_state) ! j) [0..<(example_sizes 6)]). entry_pos 2 6 (entry_at (tmp_1_disks example_state 6) (GetMaxEntrySize example_ext 2 6) j) = e \<or> entry_pos 2 6 (entry_at (tmp_1_disks example_state 6) (GetMaxEntrySize example_ext 2 6) j) + entry_offset 2 (kOffsetSize example_ext) 6 (entry_at (tmp_1_disks example_state 6) (GetMaxEntrySize example_ext 2 6) j) = e))
    \<and> entries
        = map (\<lambda>(c, j). zero_padded (GetMaxEntrySize example_ext 2 6)
                 (new_entry 2 (kOffsetSize example_ext) 6 next_bitfield c (entry_at (tmp_1_disks example_state 6) (GetMaxEntrySize example_ext 2 6) j)))
            (zip [0..<length (filter (\<lambda>j. (current_bitfield example_state) ! j) [0..<(example_sizes 6)])] (filter (\<lambda>j. (current_bitfield example_state) ! j) [0..<(example_sizes 6)]))
    \<and> remap_table 2 (kOffsetSize example_ext) 6 (GetMaxEntrySize example_ext 2 6) (example_sizes 6) (read_buffer_size 16 (GetMaxEntrySize example_ext 2 6)) (current_bitfield example_state)
          next_bitfield (tmp_1_disks example_state 6) 0 0 [] 0
        = Some (Inr ((tmp_1_disks example_state 6), entries, length (filter (\<lambda>j. (current_bitfield example_state) ! j) [0..<(example_sizes 6)])))
    \<and> backpropagate_table example_ext example_sizes 2 16 4 2 6 example_state = Some (Inr st')
    \<and> current_bitfield st' = next_bitfield
    \<and> new_table_sizes st' = (new_table_sizes example_state)[6 := length (filter (\<lambda>j. (current_bitfield example_state) ! j) [0..<(example_sizes 6)])]
    \<and> tmp_1_disks st' 6
        = disk_Truncate
            (write_sorted (SortManager example_ext (16 - read_buffer_size 16 (GetMaxEntrySize example_ext 2 6)) 4 2 (GetMaxEntrySize example_ext 2 6) (2 + 1) entries) (GetMaxEntrySize example_ext 2 6) (length (filter (\<lambda>j. (current_bitfield example_state) ! j) [0..<(example_sizes 6)]))
               (tmp_1_disks example_state 6) 0)
            (length (filter (\<lambda>j. (current_bitfield example_state) ! j) [0..<(example_sizes 6)]) * (GetMaxEntrySize example_ext 2 6))"
proof -
  have h0: "(6::nat) \<noteq> 7" by simp
  have h1: "0 < GetMaxEntrySize example_ext 2 6"
    and h2: "GetMaxEntrySize example_ext 2 6 \<le> 16 div 2"
    and h3: "fields_fit 2 (kOffsetSize example_ext) 6 (GetMaxEntrySize example_ext 2 6)"
    and h4: "example_sizes 6 * GetMaxEntrySize example_ext 2 6
             \<le> length (tmp_1_disks example_state 6)"
    and h5: "example_sizes 6 \<le> length (current_bitfield example_state)"
    and h7: "2 + 1 + 2 + kOffsetSize example_ext \<le> GetMaxEntrySize example_ext 2 6 * 8"
    by (simp_all add: example_ext_def example_sizes_def example_state_def example_disks_def
        fields_fit_def)
  have h6: "\<forall>j<example_sizes 6. current_bitfield example_state ! j \<longrightarrow>
      entry_pos 2 6 (entry_at (tmp_1_disks example_state 6) (GetMaxEntrySize example_ext 2 6) j)
      + entry_offset 2 (kOffsetSize example_ext) 6
          (entry_at (tmp_1_disks example_state 6) (GetMaxEntrySize example_ext 2 6) j)
      < example_sizes (6 - 1)"
    unfolding example_sizes_simps all_less_4 by code_simp
  from scans_agree_on_dropped_entries [OF h0 h1 h2 h3 h4 h5 h6 h7, of 4 2]
  show ?thesis .
qed

subsection \<open>The sort keys of the entries handed to the sort manager\<close>

lemma wide_liveness_6:
  "liveness wide_ext wide_disks wide_sizes 1 6 = [True, True, True, True, True]"
  unfolding liveness_below [of 6, simplified] liveness_7
  by code_simp

lemma wide_liveness_5:
  "liveness wide_ext wide_disks wide_sizes 1 5 = [True, True, True, True, True]"
  unfolding liveness_below [of 5, simplified] wide_liveness_6
  by code_simp

lemma wide_liveness_4:
  "liveness wide_ext wide_disks wide_sizes 1 4 = [True, True, True, True, True]"
  unfolding liveness_below [of 4, simplified] wide_liveness_5
  by code_simp

lemma wide_liveness_3:
  "liveness wide_ext wide_disks wide_sizes 1 3 = [True, True, True, True, True]"
  unfolding liveness_below [of 3, simplified] wide_liveness_4
  by code_simp

lemma wide_liveness_2:
  "liveness wide_ext wide_disks wide_sizes 1 2 = [True, True, True, True, True]"
  unfolding liveness_below [of 2, simplified] wide_liveness_3
  by code_simp

lemma wide_liveness_1:
  "liveness wide_ext wide_disks wide_sizes 1 1 = [True, True, True, True, True]"
  unfolding liveness_below [of 1, simplified] wide_liveness_2
  by code_simp

lemmas wide_liveness = liveness_7 wide_liveness_6 wide_liveness_5 wide_liveness_4
  wide_liveness_3 wide_liveness_2 wide_liveness_1

lemma all_less_5: "(\<forall>j<5. P j) \<longleftrightarrow> P 0 \<and> P 1 \<and> P 2 \<and> P 3 \<and> P (4::nat)"
proof -
  have "\<And>j::nat. j < 5 \<longleftrightarrow> j = 0 \<or> j = 1 \<or> j = 2 \<or> j = 3 \<or> j = 4" by arith
  then show ?thesis by auto
qed

lemma wide_sizes_simps:
  "wide_sizes 7 = 4" "wide_sizes 6 = 5" "wide_sizes 5 = 5" "wide_sizes 4 = 5"
  "wide_sizes 3 = 5" "wide_sizes 2 = 5" "wide_sizes 1 = 5"
  by (simp_all add: wide_sizes_def)

lemma wide_run_ok: "run_ok wide_ext wide_disks wide_sizes 1 16"
proof -
  have "tables_ok wide_ext wide_disks wide_sizes 1"
    unfolding tables_ok_def ball_2_7 by code_simp
  moreover have "memory_ok wide_ext 1 16"
    unfolding memory_ok_def ball_2_7 by code_simp
  moreover have "widths_ok wide_ext 1"
    unfolding widths_ok_def ball_2_6 by code_simp
  moreover have "references_ok wide_ext wide_disks wide_sizes 1"
    unfolding references_ok_def ball_2_7 wide_liveness wide_sizes_simps all_less_4 all_less_5
    by code_simp
  ultimately show ?thesis unfolding run_ok_def by simp
qed

text \<open>
  C5. For a table \<open>t\<close> in 2 to 6, the second scan hands the retained entries to the sort
  manager with the sort key of the \<open>c\<close>-th entry emitted holding the number \<open>c\<close> in its
  \<open>k + 1\<close> bits, that is \<open>c mod 2 ^ (k + 1)\<close>: the keys are \<open>0, 1, 2, \<dots>\<close> in the order of
  emission for the entries preceded by fewer than \<open>2 ^ (k + 1)\<close> survivors. The returned
  new size of the table is the number of entries emitted, which is the number of
  retained entries and at most the original size.
\<close>

theorem sort_keys_dense_within_key_width:
  fixes ext :: externals and disks :: "nat \<Rightarrow> byte list" and table_sizes :: "nat \<Rightarrow> nat"
    and k t memory_size :: nat
  defines "es \<equiv> GetMaxEntrySize ext k t"
    and "cur \<equiv> liveness ext disks table_sizes k t"
    and "index \<equiv> liveness ext disks table_sizes k (t - 1)"
  defines "live \<equiv> filter (\<lambda>j. cur ! j) [0..<table_sizes t]"
  assumes ok: "run_ok ext disks table_sizes k memory_size" and t: "2 \<le> t" "t \<le> 6"
  shows "\<exists>sizes disks' cache.
      RunPhase2 ext disks table_sizes k memory_size num_buckets log_num_buckets
        = Some (Inr (sizes, disks'))
    \<and> remap_table k (kOffsetSize ext) t es (table_sizes t) (read_buffer_size memory_size es)
          cur index (disks t) 0 0 [] 0 = Some (Inr (disks t, cache, sizes ! t))
    \<and> length cache = sizes ! t
    \<and> (\<forall>c < sizes ! t. take (k + 1) (cache ! c) = Bits c (k + 1))
    \<and> (\<forall>c < sizes ! t.
          SliceInt64FromBytes (ToBytes (cache ! c)) 0 (k + 1) = c mod 2 ^ (k + 1))
    \<and> (\<forall>c < sizes ! t. c < 2 ^ (k + 1) \<longrightarrow>
          SliceInt64FromBytes (ToBytes (cache ! c)) 0 (k + 1) = c)
    \<and> sizes ! t = length live
    \<and> sizes ! t \<le> table_sizes t"
proof -
  let ?cache = "emitted k (kOffsetSize ext) t es index (disks t) 0 live"
  from t have t7: "2 \<le> t" "t \<le> 7" "t \<noteq> 7" by simp_all
  note tab = run_ok_table [OF ok t7(1,2), folded es_def]
  have width: "k + 1 + k + kOffsetSize ext \<le> es * 8"
    unfolding es_def by (rule run_ok_width [OF ok t])
  have ret: "retained t cur = (\<lambda>j. cur ! j)"
    using t7(3) by (intro ext) (simp add: retained_def)
  have kept: "kept t cur [0..<table_sizes t] = live"
    by (simp add: kept_def ret live_def)
  have sv: "length (survivors ext disks table_sizes k t) = length live"
    by (simp add: survivors_def kept cur_def [symmetric])
  have "\<forall>j \<in> set [0..<table_sizes t]. j < length cur"
    using t by (simp add: cur_def length_liveness)
  from remap_entries_below_7 [OF t7(3) width this]
  have rm: "remap_table k (kOffsetSize ext) t es (table_sizes t)
          (read_buffer_size memory_size es) cur index (disks t) 0 0 [] 0
        = Some (Inr (disks t, ?cache, length live))"
    by (simp add: remap_table_eq [OF tab] kept)
  have keys: "\<forall>c < length live. take (k + 1) (?cache ! c) = Bits c (k + 1)"
    by (simp add: nth_emitted take_zero_padded take_new_entry)
  have mods: "\<forall>c < length live.
          SliceInt64FromBytes (ToBytes (?cache ! c)) 0 (k + 1) = c mod 2 ^ (k + 1)"
  proof (intro allI impI)
    fix c assume c: "c < length live"
    have "k + 1 \<le> length (?cache ! c)"
      using c by (simp add: nth_emitted zero_padded_def)
    from Slice_ToBytes_prefix [OF this] keys c
    show "SliceInt64FromBytes (ToBytes (?cache ! c)) 0 (k + 1) = c mod 2 ^ (k + 1)"
      by (simp add: bits_to_nat_Bits take_bit_eq_mod)
  qed
  then have reads: "\<forall>c < length live. c < 2 ^ (k + 1) \<longrightarrow>
          SliceInt64FromBytes (ToBytes (?cache ! c)) 0 (k + 1) = c"
    by simp
  have run: "RunPhase2 ext disks table_sizes k memory_size num_buckets log_num_buckets
      = Some (Inr (phase2_sizes ext disks table_sizes k,
                   phase2_disks ext disks table_sizes k memory_size num_buckets log_num_buckets))"
    by (rule RunPhase2_eq [OF ok])
  have st: "phase2_sizes ext disks table_sizes k ! t = length live"
    using t by (simp add: phase2_sizes_nth sv)
  have "length live \<le> table_sizes t"
    unfolding kept [symmetric] by (rule length_kept_le)
  with run rm keys mods reads st show ?thesis
    by (intro exI [of _ "phase2_sizes ext disks table_sizes k"]
        exI [of _ "phase2_disks ext disks table_sizes k memory_size num_buckets log_num_buckets"]
        exI [of _ ?cache]) simp
qed

theorem sort_keys_dense_within_key_width_witness:
  "run_ok example_ext example_disks example_sizes 2 16 \<and> (2::nat) \<le> 6 \<and> (6::nat) \<le> 6
   \<and> (\<exists>sizes disks' cache.
      RunPhase2 example_ext example_disks example_sizes 2 16 4 2 = Some (Inr (sizes, disks'))
    \<and> remap_table 2 (kOffsetSize example_ext) 6 (GetMaxEntrySize example_ext 2 6)
          (example_sizes 6) (read_buffer_size 16 (GetMaxEntrySize example_ext 2 6))
          (liveness example_ext example_disks example_sizes 2 6)
          (liveness example_ext example_disks example_sizes 2 (6 - 1)) (example_disks 6)
          0 0 [] 0 = Some (Inr (example_disks 6, cache, sizes ! 6))
    \<and> length cache = sizes ! 6
    \<and> (\<forall>c < sizes ! 6. take (2 + 1) (cache ! c) = Bits c (2 + 1))
    \<and> (\<forall>c < sizes ! 6.
          SliceInt64FromBytes (ToBytes (cache ! c)) 0 (2 + 1) = c mod 2 ^ (2 + 1))
    \<and> (\<forall>c < sizes ! 6. c < 2 ^ (2 + 1) \<longrightarrow>
          SliceInt64FromBytes (ToBytes (cache ! c)) 0 (2 + 1) = c)
    \<and> sizes ! 6 = length (filter (\<lambda>j. liveness example_ext example_disks example_sizes 2 6 ! j)
                            [0..<example_sizes 6])
    \<and> sizes ! 6 \<le> example_sizes 6)
   \<and> length (filter (\<lambda>j. liveness example_ext example_disks example_sizes 2 6 ! j)
               [0..<example_sizes 6]) = 3"
proof -
  have h: "(2::nat) \<le> 6" "(6::nat) \<le> 6" by simp_all
  have v: "length (filter (\<lambda>j. liveness example_ext example_disks example_sizes 2 6 ! j)
               [0..<example_sizes 6]) = 3"
    unfolding example_liveness by code_simp
  from example_run_ok h sort_keys_dense_within_key_width [OF example_run_ok h, of 4 2] v
  show ?thesis by blast
qed

text \<open>
  In the run with \<open>k = 1\<close> and five survivors in table 6, the entries handed to the sort
  manager carry the sort keys 0, 1, 2, 3, 0: the fifth entry, emitted after four
  survivors, gets the key 0, and the file of table 6 is left with two entries of key 0.
\<close>

theorem sort_key_wraps_at_key_width:
  "run_ok wide_ext wide_disks wide_sizes 1 16
   \<and> handed_to_sort
       (remap_table 1 (kOffsetSize wide_ext) 6 (GetMaxEntrySize wide_ext 1 6) (wide_sizes 6)
          (read_buffer_size 16 (GetMaxEntrySize wide_ext 1 6))
          (liveness wide_ext wide_disks wide_sizes 1 6)
          (liveness wide_ext wide_disks wide_sizes 1 5) (wide_disks 6) 0 0 [] 0)
     = [[0x04], [0x64], [0xA8], [0xEC], [0x00]]
   \<and> sort_keys 1 [[0x04], [0x64], [0xA8], [0xEC], [0x00]] = [0, 1, 2, 3, 0]
   \<and> table_files (RunPhase2 wide_ext wide_disks wide_sizes 1 16 4 2)
     = Some (Inr ([0, 5, 5, 5, 5, 5, 5, 4],
          [[0xA0, 0xA1, 0xA2, 0xA3, 0xA4],
           [0x00, 0x04, 0x64, 0xA8, 0xEC], [0x00, 0x04, 0x64, 0xA8, 0xEC],
           [0x00, 0x04, 0x64, 0xA8, 0xEC], [0x00, 0x04, 0x64, 0xA8, 0xEC],
           [0x00, 0x04, 0x64, 0xA8, 0xEC],
           [0x08, 0x48, 0x50, 0x58]]))
   \<and> sort_keys 1 [[0x00], [0x04], [0x64], [0xA8], [0xEC]] = [0, 0, 1, 2, 3]"
proof -
  have a: "handed_to_sort
       (remap_table 1 (kOffsetSize wide_ext) 6 (GetMaxEntrySize wide_ext 1 6) (wide_sizes 6)
          (read_buffer_size 16 (GetMaxEntrySize wide_ext 1 6))
          (liveness wide_ext wide_disks wide_sizes 1 6)
          (liveness wide_ext wide_disks wide_sizes 1 5) (wide_disks 6) 0 0 [] 0)
     = [[0x04], [0x64], [0xA8], [0xEC], [0x00]]"
    unfolding wide_liveness by code_simp
  have b: "sort_keys 1 [[0x04], [0x64], [0xA8], [0xEC], [0x00]] = [0, 1, 2, 3, 0]"
    by code_simp
  have c: "table_files (RunPhase2 wide_ext wide_disks wide_sizes 1 16 4 2)
     = Some (Inr ([0, 5, 5, 5, 5, 5, 5, 4],
          [[0xA0, 0xA1, 0xA2, 0xA3, 0xA4],
           [0x00, 0x04, 0x64, 0xA8, 0xEC], [0x00, 0x04, 0x64, 0xA8, 0xEC],
           [0x00, 0x04, 0x64, 0xA8, 0xEC], [0x00, 0x04, 0x64, 0xA8, 0xEC],
           [0x00, 0x04, 0x64, 0xA8, 0xEC],
           [0x08, 0x48, 0x50, 0x58]]))"
    by code_simp
  have d: "sort_keys 1 [[0x00], [0x04], [0x64], [0xA8], [0xEC]] = [0, 0, 1, 2, 3]"
    by code_simp
  from wide_run_ok a b c d show ?thesis by blast
qed

subsection \<open>Table 7 is rewritten in place\<close>

lemma padded_liveness_6:
  "liveness example_ext padded_disks example_sizes 2 6 = [True, True, True, False]"
  unfolding liveness_below [of 6, simplified] liveness_7
  by code_simp

lemma padded_liveness_5:
  "liveness example_ext padded_disks example_sizes 2 5 = [True, True, True, False]"
  unfolding liveness_below [of 5, simplified] padded_liveness_6
  by code_simp

lemma padded_liveness_4:
  "liveness example_ext padded_disks example_sizes 2 4 = [True, True, True, False]"
  unfolding liveness_below [of 4, simplified] padded_liveness_5
  by code_simp

lemma padded_liveness_3:
  "liveness example_ext padded_disks example_sizes 2 3 = [True, True, True, False]"
  unfolding liveness_below [of 3, simplified] padded_liveness_4
  by code_simp

lemma padded_liveness_2:
  "liveness example_ext padded_disks example_sizes 2 2 = [True, True, True, False]"
  unfolding liveness_below [of 2, simplified] padded_liveness_3
  by code_simp

lemma padded_liveness_1:
  "liveness example_ext padded_disks example_sizes 2 1 = [True, True, True, False]"
  unfolding liveness_below [of 1, simplified] padded_liveness_2
  by code_simp

lemmas padded_liveness = liveness_7 padded_liveness_6 padded_liveness_5 padded_liveness_4
  padded_liveness_3 padded_liveness_2 padded_liveness_1

lemma padded_run_ok: "run_ok example_ext padded_disks example_sizes 2 16"
proof -
  have "tables_ok example_ext padded_disks example_sizes 2"
    unfolding tables_ok_def ball_2_7 by code_simp
  moreover have "references_ok example_ext padded_disks example_sizes 2"
    unfolding references_ok_def ball_2_7 padded_liveness example_sizes_simps all_less_2
      all_less_4
    by code_simp
  ultimately show ?thesis
    unfolding run_ok_def using example_memory_ok example_widths_ok by simp
qed

lemma rewritten_7_padding:
  assumes fit: "fields_fit k kOffset 7 es" and le: "length e = es"
  shows "take (8 * ((k + k + kOffset + 7) div 8) - (k + k + kOffset))
           (drop (k + k + kOffset) (bits_of_bytes (rewritten_7 k kOffset es index e)))
       = replicate (8 * ((k + k + kOffset + 7) div 8) - (k + k + kOffset)) False"
proof -
  let ?ne = "new_entry_7 k kOffset index e"
  let ?t = "(k + k + kOffset + 7) div 8"
  have ln: "length ?ne = k + k + kOffset" by (simp add: new_entry_7_def)
  have tes: "?t \<le> es" using fit by (simp add: fields_fit_def)
  have r: "rewritten_7 k kOffset es index e = ToBytes ?ne @ drop ?t e"
    using tes le by (simp add: rewritten_7_def copy_to_def ln)
  have "bits_of_bytes (rewritten_7 k kOffset es index e)
      = ?ne @ replicate (8 * ?t - (k + k + kOffset)) False @ bits_of_bytes (drop ?t e)"
    unfolding r by (simp add: bits_of_bytes_ToBytes pad_bits_def ln)
  then show ?thesis by (simp add: ln)
qed

text \<open>
  C4. Table 7 is never pruned and its file keeps its length: the returned new size of
  table 7 is the original size, and every entry stays at its index in the file. Its
  \<open>f7\<close> field is unchanged; its \<open>pos\<close> and \<open>offset\<close> fields become what the rank index over
  the liveness set of table 6 returns for the original pair; the bits between the end
  of the offset field and the next byte boundary are cleared (the three fields are
  written back as whole bytes); the bytes beyond are unchanged.
\<close>

theorem table_7_rewritten_in_place:
  fixes ext :: externals and disks :: "nat \<Rightarrow> byte list" and table_sizes :: "nat \<Rightarrow> nat"
    and k memory_size :: nat
  defines "es \<equiv> GetMaxEntrySize ext k 7"
    and "index \<equiv> liveness ext disks table_sizes k 6"
    and "pad \<equiv> 8 * ((k + k + kOffsetSize ext + 7) div 8) - (k + k + kOffsetSize ext)"
  assumes ok: "run_ok ext disks table_sizes k memory_size"
  shows "\<exists>sizes disks'.
      RunPhase2 ext disks table_sizes k memory_size num_buckets log_num_buckets
        = Some (Inr (sizes, disks'))
    \<and> sizes ! 7 = table_sizes 7
    \<and> length (disks' 7) = length (disks 7)
    \<and> (\<forall>j < table_sizes 7.
          SliceInt64FromBytes (entry_at (disks' 7) es j) 0 k
            = SliceInt64FromBytes (entry_at (disks 7) es j) 0 k
        \<and> (entry_pos k 7 (entry_at (disks' 7) es j),
            entry_offset k (kOffsetSize ext) 7 (entry_at (disks' 7) es j))
            = lookup index (entry_pos k 7 (entry_at (disks 7) es j))
                (entry_offset k (kOffsetSize ext) 7 (entry_at (disks 7) es j))
        \<and> take pad
              (drop (k + k + kOffsetSize ext) (bits_of_bytes (entry_at (disks' 7) es j)))
            = replicate pad False
        \<and> drop ((k + k + kOffsetSize ext + 7) div 8) (entry_at (disks' 7) es j)
            = drop ((k + k + kOffsetSize ext + 7) div 8) (entry_at (disks 7) es j))"
proof -
  let ?n = "table_sizes 7"
  have t: "(2::nat) \<le> 7" "(7::nat) \<le> 7" by simp_all
  note tab = run_ok_table [OF ok t, folded es_def]
  have inside: "(j + 1) * es \<le> length (disks 7)" if "j < ?n" for j
  proof -
    from that have "j + 1 \<le> ?n" by simp
    from entries_le [OF this tab(4)] show ?thesis .
  qed
  have "\<forall>j \<in> set [0..<?n]. (j + 1) * es \<le> length (disks 7)"
    using inside by simp
  with remap_entries_7 [OF tab(3), of "[0..<?n]" "disks 7" "[]" index "[]" 0]
  obtain d where d: "remap_entries k (kOffsetSize ext) 7 es [] index [0..<?n] (disks 7) [] 0
        = Inr (d, [], 0 + length [0..<?n])"
    and ld: "length d = length (disks 7)"
    and ed: "\<And>j. (j + 1) * es \<le> length (disks 7) \<Longrightarrow>
        entry_at d es j = (if j \<in> set [0..<?n]
                           then rewritten_7 k (kOffsetSize ext) es index (entry_at (disks 7) es j)
                           else entry_at (disks 7) es j)"
    by auto
  have d7: "phase2_disks ext disks table_sizes k memory_size num_buckets log_num_buckets 7 = d"
    by (simp add: phase2_disks_7 rewritten_table_7_def es_def [symmetric] index_def [symmetric] d)
  have s7: "phase2_sizes ext disks table_sizes k ! 7 = ?n"
    by (simp add: phase2_sizes_nth survivors_7)
  have fields: "SliceInt64FromBytes (entry_at d es j) 0 k
            = SliceInt64FromBytes (entry_at (disks 7) es j) 0 k
        \<and> (entry_pos k 7 (entry_at d es j), entry_offset k (kOffsetSize ext) 7 (entry_at d es j))
            = lookup index (entry_pos k 7 (entry_at (disks 7) es j))
                (entry_offset k (kOffsetSize ext) 7 (entry_at (disks 7) es j))
        \<and> take pad (drop (k + k + kOffsetSize ext) (bits_of_bytes (entry_at d es j)))
            = replicate pad False
        \<and> drop ((k + k + kOffsetSize ext + 7) div 8) (entry_at d es j)
            = drop ((k + k + kOffsetSize ext + 7) div 8) (entry_at (disks 7) es j)"
    if j: "j < ?n" for j
  proof -
    have e: "entry_at d es j = rewritten_7 k (kOffsetSize ext) es index (entry_at (disks 7) es j)"
      using ed [OF inside [OF j]] j by simp
    have le: "length (entry_at (disks 7) es j) = es"
      by (rule length_entry_at [OF inside [OF j]])
    from rewritten_7_fields [OF tab(3) le, of index]
      rewritten_7_padding [OF tab(3) le, of index, folded pad_def]
    show ?thesis
      unfolding e by (simp add: prod_eq_iff)
  qed
  have run: "RunPhase2 ext disks table_sizes k memory_size num_buckets log_num_buckets
      = Some (Inr (phase2_sizes ext disks table_sizes k,
                   phase2_disks ext disks table_sizes k memory_size num_buckets log_num_buckets))"
    by (rule RunPhase2_eq [OF ok])
  from run s7 d7 ld fields show ?thesis
    by (intro exI [of _ "phase2_sizes ext disks table_sizes k"]
        exI [of _ "phase2_disks ext disks table_sizes k memory_size num_buckets log_num_buckets"])
      simp
qed

theorem table_7_rewritten_in_place_witness:
  "run_ok example_ext padded_disks example_sizes 2 16
   \<and> (\<exists>sizes disks'.
      RunPhase2 example_ext padded_disks example_sizes 2 16 4 2
        = Some (Inr (sizes, disks'))
    \<and> sizes ! 7 = example_sizes 7
    \<and> length (disks' 7) = length (padded_disks 7)
    \<and> (\<forall>j < example_sizes 7.
          SliceInt64FromBytes (entry_at (disks' 7) (GetMaxEntrySize example_ext 2 7) j) 0 2
            = SliceInt64FromBytes (entry_at (padded_disks 7) (GetMaxEntrySize example_ext 2 7) j) 0 2
        \<and> (entry_pos 2 7 (entry_at (disks' 7) (GetMaxEntrySize example_ext 2 7) j),
            entry_offset 2 (kOffsetSize example_ext) 7 (entry_at (disks' 7) (GetMaxEntrySize example_ext 2 7) j))
            = lookup (liveness example_ext padded_disks example_sizes 2 6) (entry_pos 2 7 (entry_at (padded_disks 7) (GetMaxEntrySize example_ext 2 7) j))
                (entry_offset 2 (kOffsetSize example_ext) 7 (entry_at (padded_disks 7) (GetMaxEntrySize example_ext 2 7) j))
        \<and> take (8 * ((2 + 2 + kOffsetSize example_ext + 7) div 8) - (2 + 2 + kOffsetSize example_ext))
              (drop (2 + 2 + kOffsetSize example_ext) (bits_of_bytes (entry_at (disks' 7) (GetMaxEntrySize example_ext 2 7) j)))
            = replicate (8 * ((2 + 2 + kOffsetSize example_ext + 7) div 8) - (2 + 2 + kOffsetSize example_ext)) False
        \<and> drop ((2 + 2 + kOffsetSize example_ext + 7) div 8) (entry_at (disks' 7) (GetMaxEntrySize example_ext 2 7) j)
            = drop ((2 + 2 + kOffsetSize example_ext + 7) div 8) (entry_at (padded_disks 7) (GetMaxEntrySize example_ext 2 7) j)))
   \<and> padded_disks 7 = [0x4F, 0x9F]
   \<and> table_files (RunPhase2 example_ext padded_disks example_sizes 2 16 4 2)
     = Some (Inr ([0, 3, 3, 3, 3, 3, 3, 2],
          [[0xA0, 0xA1, 0xA2], [0x04, 0x2C, 0x50], [0x04, 0x2C, 0x50], [0x04, 0x2C, 0x50],
           [0x04, 0x2C, 0x50], [0x04, 0x2C, 0x50], [0x48, 0x98]]))"
proof -
  have a: "padded_disks 7 = [0x4F, 0x9F]" by (simp add: padded_disks_def)
  have b: "table_files (RunPhase2 example_ext padded_disks example_sizes 2 16 4 2)
     = Some (Inr ([0, 3, 3, 3, 3, 3, 3, 2],
          [[0xA0, 0xA1, 0xA2], [0x04, 0x2C, 0x50], [0x04, 0x2C, 0x50], [0x04, 0x2C, 0x50],
           [0x04, 0x2C, 0x50], [0x04, 0x2C, 0x50], [0x48, 0x98]]))"
    by code_simp
  from padded_run_ok table_7_rewritten_in_place [OF padded_run_ok, of 4 2] a b
  show ?thesis by blast
qed

text \<open>
  In the run on the tables with the bits behind the offset field set, the rank index
  returns the pair \<open>(pos, offset)\<close> of both entries of table 7 as it is, and yet the file
  of table 7 is left with the bytes \<open>0x48, 0x98\<close> where it held \<open>0x4F, 0x9F\<close>: bits
  outside the \<open>pos\<close> and \<open>offset\<close> fields differ.
\<close>

theorem table_7_padding_bits_cleared:
  "run_ok example_ext padded_disks example_sizes 2 16
   \<and> map padded_disks [1..<8]
     = [[0xA0, 0xA1, 0xA2, 0xA3], [0x20, 0x60, 0x80, 0xC0], [0x20, 0x60, 0x80, 0xC0],
        [0x20, 0x60, 0x80, 0xC0], [0x20, 0x60, 0x80, 0xC0], [0x20, 0x60, 0x80, 0xC0],
        [0x4F, 0x9F]]
   \<and> entry_pos 2 7 [0x4F] = 0 \<and> entry_offset 2 (kOffsetSize example_ext) 7 [0x4F] = 1
   \<and> lookup (liveness example_ext padded_disks example_sizes 2 6) 0 1 = (0, 1)
   \<and> entry_pos 2 7 [0x9F] = 1 \<and> entry_offset 2 (kOffsetSize example_ext) 7 [0x9F] = 1
   \<and> lookup (liveness example_ext padded_disks example_sizes 2 6) 1 1 = (1, 1)
   \<and> table_files (RunPhase2 example_ext padded_disks example_sizes 2 16 4 2)
     = Some (Inr ([0, 3, 3, 3, 3, 3, 3, 2],
          [[0xA0, 0xA1, 0xA2], [0x04, 0x2C, 0x50], [0x04, 0x2C, 0x50], [0x04, 0x2C, 0x50],
           [0x04, 0x2C, 0x50], [0x04, 0x2C, 0x50], [0x48, 0x98]]))"
proof -
  have a: "map padded_disks [1..<8]
     = [[0xA0, 0xA1, 0xA2, 0xA3], [0x20, 0x60, 0x80, 0xC0], [0x20, 0x60, 0x80, 0xC0],
        [0x20, 0x60, 0x80, 0xC0], [0x20, 0x60, 0x80, 0xC0], [0x20, 0x60, 0x80, 0xC0],
        [0x4F, 0x9F]]"
    by code_simp
  have b: "entry_pos 2 7 [0x4F] = 0 \<and> entry_offset 2 (kOffsetSize example_ext) 7 [0x4F] = 1
      \<and> entry_pos 2 7 [0x9F] = 1 \<and> entry_offset 2 (kOffsetSize example_ext) 7 [0x9F] = 1"
    by code_simp
  have c: "lookup (liveness example_ext padded_disks example_sizes 2 6) 0 1 = (0, 1)
      \<and> lookup (liveness example_ext padded_disks example_sizes 2 6) 1 1 = (1, 1)"
    unfolding padded_liveness by code_simp
  have d: "table_files (RunPhase2 example_ext padded_disks example_sizes 2 16 4 2)
     = Some (Inr ([0, 3, 3, 3, 3, 3, 3, 2],
          [[0xA0, 0xA1, 0xA2], [0x04, 0x2C, 0x50], [0x04, 0x2C, 0x50], [0x04, 0x2C, 0x50],
           [0x04, 0x2C, 0x50], [0x04, 0x2C, 0x50], [0x48, 0x98]]))"
    by code_simp
  from padded_run_ok a b c d show ?thesis by blast
qed

subsection \<open>Memory budget, bucket parameters and the sort manager\<close>

lemma tie_sort_stage_ascending:
  "\<exists>xs. tie_sort_stage cache_size num_buckets log_num_buckets entry_size begin_bits entries
          = concat xs
     \<and> mset xs = mset (map ToBytes entries)
     \<and> sorted (map (\<lambda>e. SliceInt64FromBytes e begin_bits (entry_size * 8 - begin_bits)) xs)"
  by (intro exI [of _ "sort_key (\<lambda>e. SliceInt64FromBytes e begin_bits
        (entry_size * 8 - begin_bits))
        (if even log_num_buckets then map ToBytes entries else rev (map ToBytes entries))"])
    (simp add: tie_sort_stage_def)













subsection \<open>A second run on compacted tables\<close>

lemma rank_all_true:
  assumes "\<forall>j < length L. L ! j" and "p \<le> length L"
  shows "rank L p = p"
proof -
  have "\<forall>x \<in> set (take p L). id x"
  proof
    fix x assume "x \<in> set (take p L)"
    then obtain i where i: "i < length (take p L)" and x: "x = take p L ! i"
      by (auto simp add: in_set_conv_nth)
    from i have "i < p" and "i < length L" by simp_all
    with x assms(1) show "id x" by simp
  qed
  then have "filter id (take p L) = take p L" by (simp only: filter_id_conv)
  with assms(2) show ?thesis by (simp add: rank_def)
qed

lemma lookup_all_true:
  assumes "\<forall>j < length L. L ! j" and "pos + off \<le> length L"
  shows "lookup L pos off = (pos, off)"
proof -
  from assms(2) have "pos \<le> length L" by simp
  from rank_all_true [OF assms(1) this] rank_all_true [OF assms] show ?thesis
    by (simp add: lookup_def Let_def)
qed

lemma kept_all_true:
  assumes "table_index = 7 \<or> (\<forall>j < n. cur ! j)"
  shows "kept table_index cur [0..<n] = [0..<n]"
  using assms by (auto simp add: kept_def retained_def filter_id_conv)

lemma concat_entries_take:
  "n * es \<le> length disk \<Longrightarrow> concat (map (entry_at disk es) [0..<n]) = take (n * es) disk"
proof (induction n)
  case 0
  show ?case by simp
next
  case (Suc n)
  from Suc.prems have "n * es \<le> length disk" by simp
  from Suc.IH [OF this]
  have ih: "concat (map (entry_at disk es) [0..<n]) = take (n * es) disk" .
  have "concat (map (entry_at disk es) [0..<Suc n])
      = concat (map (entry_at disk es) [0..<n]) @ entry_at disk es n"
    by simp
  also have "\<dots> = take (n * es) disk @ take es (drop (n * es) disk)"
    by (simp only: ih entry_at_def)
  also have "\<dots> = take (n * es + es) disk" by (simp only: take_add)
  finally show ?case by (simp add: add.commute)
qed

lemma rewritten_7_eq:
  assumes "fields_fit k kOffset 7 es" and "length e = es"
  shows "rewritten_7 k kOffset es index e
       = ToBytes (new_entry_7 k kOffset index e) @ drop ((k + k + kOffset + 7) div 8) e"
  using assms by (simp add: rewritten_7_def copy_to_def fields_fit_def new_entry_7_def)

lemma rewritten_7_idem:
  assumes fit: "fields_fit k kOffset 7 es" and le: "length e = es"
    and e': "e' = rewritten_7 k kOffset es index e"
    and same: "lookup index' (entry_pos k 7 e') (entry_offset k kOffset 7 e')
             = (entry_pos k 7 e', entry_offset k kOffset 7 e')"
  shows "rewritten_7 k kOffset es index' e' = e'"
proof -
  let ?t = "(k + k + kOffset + 7) div 8"
  let ?tb = "ToBytes (new_entry_7 k kOffset index e)"
  note f = rewritten_7_fields [OF fit le, of index, folded e']
  have ne: "new_entry_7 k kOffset index' e' = new_entry_7 k kOffset index e"
    unfolding new_entry_7_def [of k kOffset index' e'] same
    by (simp add: f new_entry_7_def)
  have le': "length e' = es" unfolding e' by (rule length_rewritten_7 [OF fit le])
  have lt: "length ?tb = ?t" by (simp add: new_entry_7_def)
  have r: "e' = ?tb @ drop ?t e" unfolding e' by (rule rewritten_7_eq [OF fit le])
  have "rewritten_7 k kOffset es index' e' = ?tb @ drop ?t e'"
    unfolding rewritten_7_eq [OF fit le'] ne ..
  also have "drop ?t e' = drop ?t e" by (rule f(4))
  finally show ?thesis using r by simp
qed

lemma disk_Write_same:
  assumes "(j + 1) * es \<le> length disk"
  shows "disk_Write disk (j * es) (entry_at disk es j) = disk"
proof -
  from assms have l: "j * es + es \<le> length disk" by simp
  then have "disk_Write disk (j * es) (entry_at disk es j)
      = take (j * es) disk @ take es (drop (j * es) disk) @ drop es (drop (j * es) disk)"
    by (simp add: disk_Write_def entry_at_def add.commute)
  also have "\<dots> = disk" by (simp only: append_take_drop_id)
  finally show ?thesis .
qed

lemma remap_entries_7_same:
  assumes "\<forall>j \<in> set js. (j + 1) * es \<le> length disk
             \<and> rewritten_7 k kOffset es index (entry_at disk es j) = entry_at disk es j"
  shows "remap_entries k kOffset 7 es cur index js disk cache wc
       = Inr (disk, cache, wc + length js)"
  using assms
proof (induction js arbitrary: wc)
  case Nil
  show ?case by simp
next
  case (Cons j js)
  from Cons.prems have j: "(j + 1) * es \<le> length disk"
    and w: "rewritten_7 k kOffset es index (entry_at disk es j) = entry_at disk es j"
    and rest: "\<forall>j \<in> set js. (j + 1) * es \<le> length disk
             \<and> rewritten_7 k kOffset es index (entry_at disk es j) = entry_at disk es j"
    by simp_all
  have "remap_entry k kOffset 7 es cur index (entry_at disk es j) 0 j disk cache wc
      = Inr (copy_to (entry_at disk es j) 0
               (ToBytes (new_entry_7 k kOffset index (entry_at disk es j))),
             disk, cache, wc + 1)"
    unfolding remap_entry_7_entry w disk_Write_same [OF j] ..
  with Cons.IH [OF rest, of "wc + 1"] show ?case by simp
qed

lemma survivors_all:
  assumes "fully_compacted ext disks table_sizes k" and "1 \<le> t" and "t \<le> 7"
  shows "survivors ext disks table_sizes k t = [0..<table_sizes t]"
proof (cases "t = 7")
  case True
  then show ?thesis by (simp add: survivors_7)
next
  case False
  with assms have "t \<in> {1..6}" by simp
  with assms(1) have "\<forall>j < table_sizes t. liveness ext disks table_sizes k t ! j"
    unfolding fully_compacted_def by blast
  then show ?thesis unfolding survivors_def by (intro kept_all_true) simp
qed

lemma phase2_disks_1_length:
  assumes ok: "run_ok ext disks table_sizes k memory_size"
  shows "length (phase2_disks ext disks table_sizes k memory_size num_buckets log_num_buckets 1)
       = phase2_sizes ext disks table_sizes k ! 1 * GetMaxEntrySize ext k 1"
proof -
  let ?es = "GetMaxEntrySize ext k 1"
  have len: "table_sizes 1 * ?es \<le> length (disks 1)"
    using ok by (simp add: run_ok_def tables_ok_def)
  have "\<forall>j \<in> set (survivors ext disks table_sizes k 1). (j + 1) * ?es \<le> length (disks 1)"
  proof
    fix j assume "j \<in> set (survivors ext disks table_sizes k 1)"
    then have "j + 1 \<le> table_sizes 1" by (simp add: survivors_def kept_def)
    from entries_le [OF this len] show "(j + 1) * ?es \<le> length (disks 1)" .
  qed
  from length_concat_entries [OF this] show ?thesis
    by (simp add: phase2_disks_1 compacted_table_1_def phase2_sizes_nth del: One_nat_def)
qed

lemma phase2_disks_7_entries:
  assumes ok: "run_ok ext disks table_sizes k memory_size"
  shows "length (phase2_disks ext disks table_sizes k memory_size num_buckets log_num_buckets 7)
       = length (disks 7)"
    and "j < table_sizes 7 \<Longrightarrow>
       entry_at (phase2_disks ext disks table_sizes k memory_size num_buckets log_num_buckets 7)
         (GetMaxEntrySize ext k 7) j
       = rewritten_7 k (kOffsetSize ext) (GetMaxEntrySize ext k 7)
           (liveness ext disks table_sizes k 6) (entry_at (disks 7) (GetMaxEntrySize ext k 7) j)"
proof -
  let ?n = "table_sizes 7" and ?es = "GetMaxEntrySize ext k 7"
  let ?index = "liveness ext disks table_sizes k 6"
  have t: "(2::nat) \<le> 7" "(7::nat) \<le> 7" by simp_all
  note tab = run_ok_table [OF ok t]
  have inside: "(j + 1) * ?es \<le> length (disks 7)" if "j < ?n" for j
  proof -
    from that have "j + 1 \<le> ?n" by simp
    from entries_le [OF this tab(4)] show ?thesis .
  qed
  have "\<forall>j \<in> set [0..<?n]. (j + 1) * ?es \<le> length (disks 7)"
    using inside by simp
  with remap_entries_7 [OF tab(3), of "[0..<?n]" "disks 7" "[]" ?index "[]" 0]
  obtain d where d: "remap_entries k (kOffsetSize ext) 7 ?es [] ?index [0..<?n] (disks 7) [] 0
        = Inr (d, [], 0 + length [0..<?n])"
    and ld: "length d = length (disks 7)"
    and ed: "\<And>j. (j + 1) * ?es \<le> length (disks 7) \<Longrightarrow>
        entry_at d ?es j = (if j \<in> set [0..<?n]
                           then rewritten_7 k (kOffsetSize ext) ?es ?index (entry_at (disks 7) ?es j)
                           else entry_at (disks 7) ?es j)"
    by auto
  have d7: "phase2_disks ext disks table_sizes k memory_size num_buckets log_num_buckets 7 = d"
    by (simp add: phase2_disks_7 rewritten_table_7_def d)
  show "length (phase2_disks ext disks table_sizes k memory_size num_buckets log_num_buckets 7)
       = length (disks 7)"
    unfolding d7 by (rule ld)
  show "entry_at (phase2_disks ext disks table_sizes k memory_size num_buckets log_num_buckets 7)
         ?es j
       = rewritten_7 k (kOffsetSize ext) ?es ?index (entry_at (disks 7) ?es j)"
    if "j < ?n"
    unfolding d7 using ed [OF inside [OF that]] that by simp
qed

lemma compacted_run_table_1:
  assumes ok: "run_ok ext disks table_sizes k memory_size"
    and live: "fully_compacted ext disks table_sizes k"
    and len: "length (disks 1) = table_sizes 1 * GetMaxEntrySize ext k 1"
  shows "phase2_disks ext disks table_sizes k memory_size num_buckets log_num_buckets 1
       = disks 1"
proof -
  have "survivors ext disks table_sizes k 1 = [0..<table_sizes 1]"
    by (rule survivors_all [OF live]) simp_all
  then have "phase2_disks ext disks table_sizes k memory_size num_buckets log_num_buckets 1
      = concat (map (entry_at (disks 1) (GetMaxEntrySize ext k 1)) [0..<table_sizes 1])"
    by (simp only: phase2_disks_1 compacted_table_1_def)
  also have "\<dots> = take (table_sizes 1 * GetMaxEntrySize ext k 1) (disks 1)"
    by (rule concat_entries_take) (simp add: len del: One_nat_def)
  finally show ?thesis by (simp add: len del: One_nat_def)
qed

lemma compacted_run_table_7:
  assumes ok: "run_ok ext disks table_sizes k memory_size"
    and live: "fully_compacted ext disks table_sizes k"
    and canon: "\<And>j. j < table_sizes 7 \<Longrightarrow>
       \<exists>index e. length e = GetMaxEntrySize ext k 7
         \<and> entry_at (disks 7) (GetMaxEntrySize ext k 7) j
             = rewritten_7 k (kOffsetSize ext) (GetMaxEntrySize ext k 7) index e"
  shows "phase2_disks ext disks table_sizes k memory_size num_buckets log_num_buckets 7
       = disks 7"
proof -
  let ?n = "table_sizes 7" and ?es = "GetMaxEntrySize ext k 7"
  let ?L = "liveness ext disks table_sizes k 6"
  have t: "(2::nat) \<le> 7" "(7::nat) \<le> 7" by simp_all
  note tab = run_ok_table [OF ok t]
  have lL: "length ?L = table_sizes 6" by (simp add: length_liveness)
  from live have "\<forall>j < table_sizes 6. ?L ! j"
    unfolding fully_compacted_def by simp
  then have all: "\<forall>j < length ?L. ?L ! j" by (simp only: lL)
  have "\<forall>j \<in> set [0..<?n]. (j + 1) * ?es \<le> length (disks 7)
      \<and> rewritten_7 k (kOffsetSize ext) ?es ?L (entry_at (disks 7) ?es j)
          = entry_at (disks 7) ?es j"
  proof
    fix j assume "j \<in> set [0..<?n]"
    then have j: "j < ?n" by simp
    then have "j + 1 \<le> ?n" by simp
    from entries_le [OF this tab(4)] have inside: "(j + 1) * ?es \<le> length (disks 7)" .
    from canon [OF j] obtain index e where le: "length e = ?es"
      and e': "entry_at (disks 7) ?es j = rewritten_7 k (kOffsetSize ext) ?es index e"
      by blast
    from run_ok_refs [OF ok t] j have "entry_pos k 7 (entry_at (disks 7) ?es j)
        + entry_offset k (kOffsetSize ext) 7 (entry_at (disks 7) ?es j) < table_sizes 6"
      by (simp add: refs_in_bounds_def retained_def)
    then have "entry_pos k 7 (entry_at (disks 7) ?es j)
        + entry_offset k (kOffsetSize ext) 7 (entry_at (disks 7) ?es j) \<le> length ?L"
      by (simp only: lL)
    from lookup_all_true [OF all this]
    have "rewritten_7 k (kOffsetSize ext) ?es ?L (entry_at (disks 7) ?es j)
        = entry_at (disks 7) ?es j"
      by (rule rewritten_7_idem [OF tab(3) le e'])
    with inside show "(j + 1) * ?es \<le> length (disks 7)
      \<and> rewritten_7 k (kOffsetSize ext) ?es ?L (entry_at (disks 7) ?es j)
          = entry_at (disks 7) ?es j" ..
  qed
  from remap_entries_7_same [OF this, of "[]" "[]" 0] show ?thesis
    by (simp add: phase2_disks_7 rewritten_table_7_def)
qed

lemma compacted_run_sizes:
  assumes live: "fully_compacted ext disks table_sizes k" and "1 \<le> t" and "t \<le> 7"
  shows "phase2_sizes ext disks table_sizes k ! t = table_sizes t"
  using assms by (simp add: phase2_sizes_nth survivors_all)

lemma ball_1_6: "(\<forall>t \<in> {1..6::nat}. P t) \<longleftrightarrow> P 1 \<and> P 2 \<and> P 3 \<and> P 4 \<and> P 5 \<and> P 6"
proof -
  have "{1..6::nat} = {1, 2, 3, 4, 5, 6}" by auto
  then show ?thesis by simp
qed

lemma upt_1_8: "[1..<8] = [1, 2, 3, 4, 5, 6, 7::nat]"
  by code_simp

lemma upt_1_7: "[1..<7] = [1, 2, 3, 4, 5, 6::nat]"
  by code_simp

lemma dense_liveness_6:
  "liveness example_ext dense_disks dense_sizes 1 6 = [True, True]"
  unfolding liveness_below [of 6, simplified] liveness_7
  by code_simp

lemma dense_liveness_5:
  "liveness example_ext dense_disks dense_sizes 1 5 = [True, True]"
  unfolding liveness_below [of 5, simplified] dense_liveness_6
  by code_simp

lemma dense_liveness_4:
  "liveness example_ext dense_disks dense_sizes 1 4 = [True, True]"
  unfolding liveness_below [of 4, simplified] dense_liveness_5
  by code_simp

lemma dense_liveness_3:
  "liveness example_ext dense_disks dense_sizes 1 3 = [True, True]"
  unfolding liveness_below [of 3, simplified] dense_liveness_4
  by code_simp

lemma dense_liveness_2:
  "liveness example_ext dense_disks dense_sizes 1 2 = [True, True]"
  unfolding liveness_below [of 2, simplified] dense_liveness_3
  by code_simp

lemma dense_liveness_1:
  "liveness example_ext dense_disks dense_sizes 1 1 = [True, True]"
  unfolding liveness_below [of 1, simplified] dense_liveness_2
  by code_simp

lemmas dense_liveness = liveness_7 dense_liveness_6 dense_liveness_5 dense_liveness_4
  dense_liveness_3 dense_liveness_2 dense_liveness_1

lemma after_liveness_6:
  "liveness example_ext dense_disks_after ((!) dense_sizes_after) 1 6 = [True, True]"
  unfolding liveness_below [of 6, simplified] liveness_7
  by code_simp

lemma after_liveness_5:
  "liveness example_ext dense_disks_after ((!) dense_sizes_after) 1 5 = [True, True]"
  unfolding liveness_below [of 5, simplified] after_liveness_6
  by code_simp

lemma after_liveness_4:
  "liveness example_ext dense_disks_after ((!) dense_sizes_after) 1 4 = [True, True]"
  unfolding liveness_below [of 4, simplified] after_liveness_5
  by code_simp

lemma after_liveness_3:
  "liveness example_ext dense_disks_after ((!) dense_sizes_after) 1 3 = [True, True]"
  unfolding liveness_below [of 3, simplified] after_liveness_4
  by code_simp

lemma after_liveness_2:
  "liveness example_ext dense_disks_after ((!) dense_sizes_after) 1 2 = [True, True]"
  unfolding liveness_below [of 2, simplified] after_liveness_3
  by code_simp

lemma after_liveness_1:
  "liveness example_ext dense_disks_after ((!) dense_sizes_after) 1 1 = [True, True]"
  unfolding liveness_below [of 1, simplified] after_liveness_2
  by code_simp

lemmas after_liveness = liveness_7 after_liveness_6 after_liveness_5 after_liveness_4
  after_liveness_3 after_liveness_2 after_liveness_1

lemma dense_sizes_simps:
  "dense_sizes 7 = 2" "dense_sizes 6 = 2" "dense_sizes 5 = 2" "dense_sizes 4 = 2"
  "dense_sizes 3 = 2" "dense_sizes 2 = 2" "dense_sizes 1 = 2"
  by (simp_all add: dense_sizes_def)

lemma dense_sizes_after_simps:
  "dense_sizes_after ! 7 = 2" "dense_sizes_after ! 6 = 2" "dense_sizes_after ! 5 = 2"
  "dense_sizes_after ! 4 = 2" "dense_sizes_after ! 3 = 2" "dense_sizes_after ! 2 = 2"
  "dense_sizes_after ! 1 = 2"
  by (simp_all add: dense_sizes_after_def)

lemma dense_memory_ok: "memory_ok example_ext 1 16"
  unfolding memory_ok_def ball_2_7 by code_simp

lemma dense_widths_ok: "widths_ok example_ext 1"
  unfolding widths_ok_def ball_2_6 by code_simp

lemma dense_run_ok: "run_ok example_ext dense_disks dense_sizes 1 16"
proof -
  have "tables_ok example_ext dense_disks dense_sizes 1"
    unfolding tables_ok_def ball_2_7 by code_simp
  moreover have "references_ok example_ext dense_disks dense_sizes 1"
    unfolding references_ok_def ball_2_7 dense_liveness dense_sizes_simps all_less_2
    by code_simp
  ultimately show ?thesis
    unfolding run_ok_def using dense_memory_ok dense_widths_ok by simp
qed

lemma after_run_ok: "run_ok example_ext dense_disks_after ((!) dense_sizes_after) 1 16"
proof -
  have "tables_ok example_ext dense_disks_after ((!) dense_sizes_after) 1"
    unfolding tables_ok_def ball_2_7 by code_simp
  moreover have "references_ok example_ext dense_disks_after ((!) dense_sizes_after) 1"
    unfolding references_ok_def ball_2_7 after_liveness dense_sizes_after_simps all_less_2
    by code_simp
  ultimately show ?thesis
    unfolding run_ok_def using dense_memory_ok dense_widths_ok by simp
qed

lemma after_fully_compacted:
  "fully_compacted example_ext dense_disks_after ((!) dense_sizes_after) 1"
  unfolding fully_compacted_def ball_1_6 after_liveness dense_sizes_after_simps all_less_2
  by simp

lemma dense_sizes_run:
  "phase2_sizes example_ext dense_disks dense_sizes 1 = dense_sizes_after"
  unfolding phase2_sizes_def upt_8 survivors_def list.map dense_liveness by code_simp

lemma dense_files_run:
  "map (phase2_disks example_ext dense_disks dense_sizes 1 16 4 2) [1..<8]
   = map dense_disks_after [1..<8]"
  unfolding upt_1_8 list.map phase2_disks_def sorted_table_def compacted_table_1_def
    rewritten_table_7_def survivors_def dense_liveness
  by code_simp

lemma dense_disks_run:
  "phase2_disks example_ext dense_disks dense_sizes 1 16 4 2 = dense_disks_after"
proof (rule ext)
  fix t :: nat
  show "phase2_disks example_ext dense_disks dense_sizes 1 16 4 2 t = dense_disks_after t"
  proof (cases "1 \<le> t \<and> t \<le> 7")
    case True
    then have i: "t - 1 < length [1..<8]" by auto
    from True i have t: "[1..<8] ! (t - 1) = t" by (simp only: nth_upt length_upt) arith
    from dense_files_run
    have "map (phase2_disks example_ext dense_disks dense_sizes 1 16 4 2) [1..<8] ! (t - 1)
        = map dense_disks_after [1..<8] ! (t - 1)"
      by (rule arg_cong)
    then show ?thesis unfolding nth_map [OF i] t .
  next
    case False
    then show ?thesis
      by (auto simp add: phase2_disks_def dense_disks_def dense_disks_after_def)
  qed
qed

lemma dense_run:
  "RunPhase2 example_ext dense_disks dense_sizes 1 16 4 2
   = Some (Inr (dense_sizes_after, dense_disks_after))"
  unfolding RunPhase2_eq [OF dense_run_ok] dense_sizes_run dense_disks_run ..

text \<open>
  C2. A second run on the tables a first run left, in which every bit of every liveness
  set is set, returns the entry counts of its input for every table and leaves the files
  of the tables 1 and 7 byte for byte as they were. (The files of the tables 2 to 6 are
  rewritten: the second scan reads \<open>pos\<close> and \<open>offset\<close> from bit 0 of an entry, and writes
  them behind a sort key of \<open>k + 1\<close> bits.)
\<close>

theorem second_run_keeps_sizes_and_outer_tables:
  assumes first: "run_ok ext disks0 sizes0 k memory_0"
    and out: "RunPhase2 ext disks0 sizes0 k memory_0 buckets_0 log_0 = Some (Inr (sizes, disks))"
    and second: "run_ok ext disks ((!) sizes) k memory_size"
    and live: "fully_compacted ext disks ((!) sizes) k"
  shows "\<exists>sizes' disks'.
      RunPhase2 ext disks ((!) sizes) k memory_size num_buckets log_num_buckets
        = Some (Inr (sizes', disks'))
    \<and> (\<forall>t \<in> {1..7}. sizes' ! t = sizes ! t)
    \<and> disks' 1 = disks 1
    \<and> disks' 7 = disks 7"
proof -
  let ?es = "GetMaxEntrySize ext k 7"
  from out RunPhase2_eq [OF first, of buckets_0 log_0]
  have s: "sizes = phase2_sizes ext disks0 sizes0 k"
    and d: "disks = phase2_disks ext disks0 sizes0 k memory_0 buckets_0 log_0"
    by simp_all
  have l1: "length (disks 1) = sizes ! 1 * GetMaxEntrySize ext k 1"
    unfolding s d by (rule phase2_disks_1_length [OF first])
  have s7: "sizes ! 7 = sizes0 7"
    unfolding s by (simp add: phase2_sizes_nth survivors_7)
  have t: "(2::nat) \<le> 7" "(7::nat) \<le> 7" by simp_all
  note tab = run_ok_table [OF first t]
  have canon: "\<exists>index e. length e = ?es
      \<and> entry_at (disks 7) ?es j = rewritten_7 k (kOffsetSize ext) ?es index e"
    if "j < sizes ! 7" for j
  proof -
    from that s7 have j: "j < sizes0 7" by simp
    then have "j + 1 \<le> sizes0 7" by simp
    from entries_le [OF this tab(4)] have "(j + 1) * ?es \<le> length (disks0 7)" .
    then have "length (entry_at (disks0 7) ?es j) = ?es" by (rule length_entry_at)
    with phase2_disks_7_entries(2) [OF first j, of buckets_0 log_0] show ?thesis
      unfolding d by blast
  qed
  have d1: "phase2_disks ext disks ((!) sizes) k memory_size num_buckets log_num_buckets 1
      = disks 1"
    by (rule compacted_run_table_1 [OF second live l1])
  have d7: "phase2_disks ext disks ((!) sizes) k memory_size num_buckets log_num_buckets 7
      = disks 7"
    by (rule compacted_run_table_7 [OF second live canon])
  have sz: "\<forall>t \<in> {1..7}. phase2_sizes ext disks ((!) sizes) k ! t = sizes ! t"
    using compacted_run_sizes [OF live] by simp
  from RunPhase2_eq [OF second, of num_buckets log_num_buckets] d1 d7 sz show ?thesis
    by (intro exI [of _ "phase2_sizes ext disks ((!) sizes) k"]
        exI [of _ "phase2_disks ext disks ((!) sizes) k memory_size num_buckets
                     log_num_buckets"]) simp
qed

theorem second_run_keeps_sizes_and_outer_tables_witness:
  "run_ok example_ext dense_disks dense_sizes 1 16
   \<and> RunPhase2 example_ext dense_disks dense_sizes 1 16 4 2
       = Some (Inr (dense_sizes_after, dense_disks_after))
   \<and> run_ok example_ext dense_disks_after ((!) dense_sizes_after) 1 16
   \<and> fully_compacted example_ext dense_disks_after ((!) dense_sizes_after) 1
   \<and> (\<exists>sizes' disks'.
        RunPhase2 example_ext dense_disks_after ((!) dense_sizes_after) 1 16 4 2
          = Some (Inr (sizes', disks'))
      \<and> (\<forall>t \<in> {1..7}. sizes' ! t = dense_sizes_after ! t)
      \<and> disks' 1 = dense_disks_after 1
      \<and> disks' 7 = dense_disks_after 7)
   \<and> dense_disks_after 1 = [0xAA, 0xBB] \<and> dense_disks_after 7 = [0x20, 0xC0]"
proof -
  have v: "dense_disks_after 1 = [0xAA, 0xBB] \<and> dense_disks_after 7 = [0x20, 0xC0]"
    by (simp add: dense_disks_after_def)
  from second_run_keeps_sizes_and_outer_tables
    [OF dense_run_ok dense_run after_run_ok after_fully_compacted, of 4 2]
    dense_run_ok dense_run after_run_ok after_fully_compacted v
  show ?thesis by blast
qed

text \<open>
  The run with \<open>k = 1\<close> leaves tables in which every entry is referenced. A second run on
  them finds every liveness bit set and returns the same entry counts, yet it leaves
  the files of the tables 2 to 6 with the bytes \<open>0x00, 0x50\<close> where they held
  \<open>0x10, 0x60\<close>: it reads the sort key of the first run as \<open>pos\<close> and \<open>offset\<close>.
\<close>

theorem second_run_rewrites_inner_tables:
  "table_files (RunPhase2 example_ext dense_disks dense_sizes 1 16 4 2)
     = Some (Inr (dense_sizes_after, map dense_disks_after [1..<8]))
   \<and> map (liveness example_ext dense_disks_after ((!) dense_sizes_after) 1) [1..<7]
     = replicate 6 [True, True]
   \<and> table_files (RunPhase2 example_ext dense_disks_after ((!) dense_sizes_after) 1 16 4 2)
     = Some (Inr (dense_sizes_after,
          [[0xAA, 0xBB], [0x00, 0x50], [0x00, 0x50], [0x00, 0x50], [0x00, 0x50], [0x00, 0x50],
           [0x20, 0xC0]]))
   \<and> map dense_disks_after [1..<8]
     = [[0xAA, 0xBB], [0x10, 0x60], [0x10, 0x60], [0x10, 0x60], [0x10, 0x60], [0x10, 0x60],
        [0x20, 0xC0]]"
proof -
  have a: "table_files (RunPhase2 example_ext dense_disks dense_sizes 1 16 4 2)
     = Some (Inr (dense_sizes_after, map dense_disks_after [1..<8]))"
    by code_simp
  have b: "map (liveness example_ext dense_disks_after ((!) dense_sizes_after) 1) [1..<7]
     = replicate 6 [True, True]"
    unfolding upt_1_7 list.map after_liveness by code_simp
  have c: "table_files
      (RunPhase2 example_ext dense_disks_after ((!) dense_sizes_after) 1 16 4 2)
     = Some (Inr (dense_sizes_after,
          [[0xAA, 0xBB], [0x00, 0x50], [0x00, 0x50], [0x00, 0x50], [0x00, 0x50], [0x00, 0x50],
           [0x20, 0xC0]]))"
    by code_simp
  have d: "map dense_disks_after [1..<8]
     = [[0xAA, 0xBB], [0x10, 0x60], [0x10, 0x60], [0x10, 0x60], [0x10, 0x60], [0x10, 0x60],
        [0x20, 0xC0]]"
    by code_simp
  from a b c d show ?thesis by blast
qed

end
